theory Spec2Isabelle
  imports Complex_Main "HOL-Library.Signed_Division" "HOL-Library.Log_Nat"
begin

section \<open>klogg: the indexing worker (logdataworker.cpp)\<close>

text \<open>
  A shallow embedding of \<^verbatim>\<open>src/logdata/src/logdataworker.cpp\<close>: the shared index
  \<^verbatim>\<open>IndexingData\<close>, the block scanner \<^verbatim>\<open>IndexOperation::parseDataBlock\<close>, the indexing
  pass \<^verbatim>\<open>IndexOperation::doIndex\<close> and the three operations \<^verbatim>\<open>FullIndexOperation\<close>,
  \<^verbatim>\<open>PartialIndexOperation\<close> and \<^verbatim>\<open>CheckFileChangesOperation\<close>.

  Conventions of the embedding.
  \<^item> A \<^verbatim>\<open>QByteArray\<close> is a \<^typ>\<open>string\<close> (a list of 8-bit characters).
  \<^item> 64-bit offsets and sizes (\<^verbatim>\<open>qint64\<close>, \<^verbatim>\<open>LineOffset::UnderlyingType\<close>) are
    \<^typ>\<open>int\<close>; they are not wrapped (a file is shorter than \<open>2^63\<close> bytes).
    Every \<^verbatim>\<open>static_cast<int>\<close> of an integer is the 32-bit wrap-around
    \<open>static_cast_int\<close>.
  \<^item> A \<^verbatim>\<open>float\<close> is the \<^typ>\<open>real\<close> number that it denotes; every conversion and
    operation is rounded to single precision (\<open>float_of\<close>), and the conversion of a
    \<^verbatim>\<open>float\<close> to \<^verbatim>\<open>int\<close> is checked (\<open>float_to_int\<close>).
  \<^item> A \<^verbatim>\<open>QTextCodec*\<close> is a \<^typ>\<open>'c option\<close>, \<open>None\<close> being the null pointer.
  \<^item> What the file uses from outside (Qt's MD5, the encoding detector, the
    parameters of a codec, the locale's codec) is collected in a record \<open>env\<close> that
    every operation takes as its first argument.
  \<^item> The file on disk is a value \<open>disk_file\<close>; it does not change while one operation
    runs.
\<close>

subsection \<open>Bytes, integers and the outside world\<close>

definition LF :: char where
  "LF = CHR 0x0A"

definition TAB :: char where
  "TAB = CHR 0x09"

text \<open>\<^verbatim>\<open>static_cast<int>( x )\<close> for a 64-bit \<open>x\<close>: the low 32 bits, read as two's complement.\<close>

definition static_cast_int :: "int \<Rightarrow> int" where
  "static_cast_int x = (x + 2147483648) mod 4294967296 - 2147483648"

text \<open>
  \<^verbatim>\<open>std::memchr( mem + start, c, n )\<close>: the index in \<open>mem\<close> of the first \<open>c\<close> among the
  \<open>n\<close> bytes from \<open>start\<close> on. A \<^verbatim>\<open>QByteArray\<close> keeps a NUL byte behind its last byte;
  reading further is undefined in C++. Here the search ends with the array, that is, the
  memory behind a block holds neither of the bytes searched for.
\<close>

definition memchr :: "string \<Rightarrow> nat \<Rightarrow> char \<Rightarrow> int \<Rightarrow> nat option" where
  "memchr mem start c n =
     (let seg = take (nat n) (drop start mem)
      in if c \<in> set seg then Some (start + length (takeWhile (\<lambda>x. x \<noteq> c) seg)) else None)"

text \<open>
  Modelled from the spec: \<^verbatim>\<open>EncodingParameters\<close> is declared outside the given sources
  (``Given an Encoding, produce \<open>{ line_feed_width, before_cr_offset }\<close>''); the values
  for a codec are supplied by \<open>env\<close>.
\<close>

record EncodingParameters =
  lineFeedWidth :: int
  beforeCrOffset :: int

record 'c env =
  md5 :: "string \<Rightarrow> string"
    \<comment> \<open>\<^verbatim>\<open>QCryptographicHash( Md5 )\<close>: the digest of all the data added since the last reset\<close>
  detectEncoding :: "string \<Rightarrow> 'c"
    \<comment> \<open>\<^verbatim>\<open>EncodingDetector::getInstance().detectEncoding\<close>\<close>
  encodingParameters :: "'c \<Rightarrow> EncodingParameters"
    \<comment> \<open>the constructor \<^verbatim>\<open>EncodingParameters( codec )\<close>\<close>
  defaultEncodingParameters :: EncodingParameters
    \<comment> \<open>the default-constructed \<^verbatim>\<open>EncodingParameters\<close> of a fresh \<^verbatim>\<open>IndexingState\<close>\<close>
  codecForLocale :: 'c
    \<comment> \<open>\<^verbatim>\<open>QTextCodec::codecForLocale()\<close>\<close>

text \<open>
  The file named \<^verbatim>\<open>fileName_\<close>: whether it exists, whether \<^verbatim>\<open>QFile::open( ReadOnly )\<close>
  succeeds, and its bytes. \<^verbatim>\<open>QFileInfo::size()\<close> is 0 for a file that does not exist.
\<close>

record disk_file =
  file_exists :: bool
  file_readable :: bool
  file_bytes :: string

definition info_size :: "disk_file \<Rightarrow> int" where
  "info_size f = (if file_exists f then int (length (file_bytes f)) else 0)"

definition file_open :: "disk_file \<Rightarrow> bool" where
  "file_open f = (file_exists f \<and> file_readable f)"

subsection \<open>LinePositionArray\<close>

text \<open>
  Modelled from the spec: \<^verbatim>\<open>LinePositionArray\<close> and \<^verbatim>\<open>FastLinePositionArray\<close> are declared
  outside the given sources. The spec: an ordered sequence of offsets with a flag
  ``asserting that the last entry is synthetic''; \<^verbatim>\<open>line_positions.len()\<close> ``equals the
  number of LFs consumed (plus one if fake-final-LF set)''; the bulk append ``merges a
  per-block local array into the shared structure''. So a bulk append first drops a
  synthetic last entry, then appends, and the flag becomes the one of the appended array.
\<close>

record LinePositionArray =
  array :: "int list"
  fakeFinalLF :: bool

definition empty_array :: LinePositionArray where
  "empty_array = \<lparr>array = [], fakeFinalLF = False\<rparr>"

definition append :: "LinePositionArray \<Rightarrow> int \<Rightarrow> LinePositionArray" where
  "append a p =
     \<lparr>array = (if fakeFinalLF a then butlast (array a) else array a) @ [p],
      fakeFinalLF = False\<rparr>"

definition setFakeFinalLF :: "LinePositionArray \<Rightarrow> LinePositionArray" where
  "setFakeFinalLF a = a\<lparr>fakeFinalLF := True\<rparr>"

definition append_list :: "LinePositionArray \<Rightarrow> LinePositionArray \<Rightarrow> LinePositionArray" where
  "append_list a other =
     \<lparr>array = (if fakeFinalLF a then butlast (array a) else array a) @ array other,
      fakeFinalLF = fakeFinalLF other\<rparr>"

subsection \<open>IndexingData\<close>

record IndexedHash =
  hash :: string
  size' :: int

text \<open>
  The fields of \<^verbatim>\<open>IndexingData\<close>. \<open>indexHash\<close> is the running \<^verbatim>\<open>QCryptographicHash\<close>
  \<^verbatim>\<open>indexHash_\<close>, kept as the bytes added to it since its last reset.
\<close>

record 'c IndexingData =
  linePosition :: LinePositionArray
  maxLength :: int
  indexedHash :: IndexedHash
  indexHash :: string
  encodingGuess :: "'c option"
  encodingForced :: "'c option"

definition getSize :: "'c IndexingData \<Rightarrow> int" where
  "getSize d = size' (indexedHash d)"

definition getHash :: "'c IndexingData \<Rightarrow> IndexedHash" where
  "getHash d = indexedHash d"

definition getMaxLength :: "'c IndexingData \<Rightarrow> int" where
  "getMaxLength d = maxLength d"

definition getNbLines :: "'c IndexingData \<Rightarrow> nat" where
  "getNbLines d = length (array (linePosition d))"

definition getEncodingGuess :: "'c IndexingData \<Rightarrow> 'c option" where
  "getEncodingGuess d = encodingGuess d"

definition setEncodingGuess :: "'c IndexingData \<Rightarrow> 'c option \<Rightarrow> 'c IndexingData" where
  "setEncodingGuess d codec = d\<lparr>encodingGuess := codec\<rparr>"

definition forceEncoding :: "'c IndexingData \<Rightarrow> 'c option \<Rightarrow> 'c IndexingData" where
  "forceEncoding d codec = d\<lparr>encodingForced := codec\<rparr>"

definition getForcedEncoding :: "'c IndexingData \<Rightarrow> 'c option" where
  "getForcedEncoding d = encodingForced d"

definition addAll ::
  "'c env \<Rightarrow> 'c IndexingData \<Rightarrow> string \<Rightarrow> int \<Rightarrow> LinePositionArray \<Rightarrow> 'c option
     \<Rightarrow> 'c IndexingData" where
  "addAll e d block len line_position encoding =
     (let fed = indexHash d @ block
      in \<lparr>linePosition = append_list (linePosition d) line_position,
          maxLength = max (maxLength d) len,
          indexedHash = \<lparr>hash = md5 e fed, size' = size' (indexedHash d) + int (length block)\<rparr>,
          indexHash = fed,
          encodingGuess = encoding,
          encodingForced = encodingForced d\<rparr>)"

definition clear :: "'c IndexingData \<Rightarrow> 'c IndexingData" where
  "clear d =
     \<lparr>linePosition = empty_array,
      maxLength = 0,
      indexedHash = \<lparr>hash = [], size' = 0\<rparr>,
      indexHash = [],
      encodingGuess = None,
      encodingForced = None\<rparr>"

text \<open>
  Modelled from the spec: the constructor of \<^verbatim>\<open>IndexingData\<close> is outside the given sources
  (``IndexingData is constructed empty'').
\<close>

definition empty_index :: "'c IndexingData" where
  "empty_index =
     \<lparr>linePosition = empty_array,
      maxLength = 0,
      indexedHash = \<lparr>hash = [], size' = 0\<rparr>,
      indexHash = [],
      encodingGuess = None,
      encodingForced = None\<rparr>"

subsection \<open>Results of an operation\<close>

datatype MonitoredFileStatus = Unchanged | DataAdded | Truncated

text \<open>\<^verbatim>\<open>OperationResult\<close> is \<^verbatim>\<open>absl::variant<bool, MonitoredFileStatus>\<close>.\<close>

datatype OperationResult = Completion bool | FileStatus MonitoredFileStatus

subsection \<open>CheckFileChangesOperation\<close>

text \<open>
  The \<^verbatim>\<open>do ... while\<close> loop of \<^verbatim>\<open>CheckFileChangesOperation::start\<close>. \<open>fpos\<close> is the read
  position of the file, \<open>hashed\<close> the bytes given to the local hash so far. A read of
  at most \<open>bufsize\<close> bytes returns the bytes that are there.
\<close>

function readLoop ::
  "string \<Rightarrow> nat \<Rightarrow> int \<Rightarrow> nat \<Rightarrow> string \<Rightarrow> int \<Rightarrow> string" where
  "readLoop content bufsize indexedSize fpos hashed totalSize =
     (let chunk = take bufsize (drop fpos content);
          readSize = int (length chunk);
          hashed' = (if readSize > 0 then hashed @ chunk else hashed);
          totalSize' = (if readSize > 0 then totalSize + readSize else totalSize)
      in if readSize > 0 \<and> totalSize' < indexedSize
         then readLoop content bufsize indexedSize (fpos + length chunk) hashed' totalSize'
         else hashed')"
  by pat_completeness auto
termination
  by (relation "measure (\<lambda>(content, bufsize, indexedSize, fpos, hashed, totalSize).
        length content - fpos)") auto

text \<open>
  \<^verbatim>\<open>CheckFileChangesOperation::start\<close>. The buffer is
  \<^verbatim>\<open>QByteArray{ static_cast<int>( indexedHash.size ), 0 }\<close>; a \<^verbatim>\<open>QByteArray\<close> asked for
  a size that is not positive is empty. The operation hands the index back as it got it.
\<close>

definition CheckFileChangesOperation_start ::
  "'c env \<Rightarrow> disk_file \<Rightarrow> 'c IndexingData \<Rightarrow> OperationResult \<times> 'c IndexingData" where
  "CheckFileChangesOperation_start e f d =
     (let indexedHash = getHash d;
          realFileSize = info_size f
      in if realFileSize = 0 \<or> realFileSize < size' indexedHash
         then (FileStatus Truncated, d)
         else
           let bufsize = nat (static_cast_int (size' indexedHash))
           in if file_open f
              then
                let realHash = md5 e (readLoop (file_bytes f) bufsize (size' indexedHash) 0 [] 0)
                in if hash indexedHash \<noteq> realHash then (FileStatus Truncated, d)
                   else if realFileSize > size' indexedHash then (FileStatus DataAdded, d)
                   else (FileStatus Unchanged, d)
              else (FileStatus Truncated, d))"

subsection \<open>The interrupt flag\<close>

text \<open>
  \<^verbatim>\<open>interruptRequest_\<close> is an atomic flag that another thread may set at any time;
  \<^verbatim>\<open>LogDataWorker\<close> clears it only before it launches an operation. Within one
  operation the flag is read at a sequence of points, numbered \<open>0, 1, 2, ...\<close> in the
  order in which they happen: by the block reader before every chunk, by
  \<^verbatim>\<open>doIndex\<close> after the graph has drained, and by \<^verbatim>\<open>start\<close> for its result. The moment
  at which the flag is set is \<open>Some j\<close> (set before read number \<open>j\<close>, after all earlier
  reads) or \<open>None\<close> (not set during the operation).
\<close>

definition interruptRequest :: "nat option \<Rightarrow> nat \<Rightarrow> bool" where
  "interruptRequest t k = (case t of None \<Rightarrow> False | Some j \<Rightarrow> j \<le> k)"

subsection \<open>IndexingState and the block scanner\<close>

text \<open>
  \<^verbatim>\<open>IndexingState\<close> (the field \<^verbatim>\<open>end\<close> is \<open>line_end\<close>, the codec guess of the pass is
  \<open>st_encodingGuess\<close>).
\<close>

record 'c IndexingState =
  encodingParams :: EncodingParameters
  pos :: int
  max_length :: int
  additional_spaces :: int
  line_end :: int
  file_size :: int
  st_encodingGuess :: "'c option"
  fileTextCodec :: "'c option"

text \<open>Modelled from the spec: \<^verbatim>\<open>AbstractLogData::tabStop\<close> (``Constants: \<open>TAB_STOP = 8\<close>'').\<close>

definition tabStop :: int where
  "tabStop = 8"

lemma memchr_Some:
  assumes "memchr mem start c n = Some i"
  shows "start \<le> i \<and> i < length mem \<and> int i < int start + n \<and> mem ! i = c
         \<and> (\<forall>j. start \<le> j \<and> j < i \<longrightarrow> mem ! j \<noteq> c)"
proof -
  define seg where "seg = take (nat n) (drop start mem)"
  define k where "k = length (takeWhile (\<lambda>x. x \<noteq> c) seg)"
  from assms have in_seg: "c \<in> set seg" and i: "i = start + k"
    by (auto simp: memchr_def Let_def seg_def k_def split: if_splits)
  have "takeWhile (\<lambda>x. x \<noteq> c) seg \<noteq> seg"
    using in_seg by auto
  then have "k \<noteq> length seg"
    unfolding k_def using takeWhile_eq_take [of "\<lambda>x. x \<noteq> c" seg] by auto
  then have k_lt: "k < length seg"
    unfolding k_def using length_takeWhile_le [of "\<lambda>x. x \<noteq> c" seg] by simp
  have seg_k: "seg ! k = c"
    using nth_length_takeWhile [of "\<lambda>x. x \<noteq> c" seg] k_lt by (simp add: k_def)
  have len: "length seg = min (nat n) (length mem - start)"
    by (simp add: seg_def)
  have nth: "seg ! j = mem ! (start + j)" if "j < length seg" for j
  proof -
    from that have j: "j < length mem - start" "j < nat n"
      by (simp_all add: seg_def)
    then have "start \<le> length mem"
      by arith
    with j show ?thesis
      by (simp add: seg_def nth_drop)
  qed
  have before: "mem ! j \<noteq> c" if j: "start \<le> j" "j < i" for j
  proof -
    have lt: "j - start < k" using j by (simp add: i)
    then have "takeWhile (\<lambda>x. x \<noteq> c) seg ! (j - start) \<in> set (takeWhile (\<lambda>x. x \<noteq> c) seg)"
      by (simp add: k_def)
    then have "takeWhile (\<lambda>x. x \<noteq> c) seg ! (j - start) \<noteq> c"
      by (auto dest: set_takeWhileD)
    then have "seg ! (j - start) \<noteq> c"
      using lt by (simp add: takeWhile_nth k_def)
    then show ?thesis
      using nth [of "j - start"] lt k_lt j by simp
  qed
  have "start + k < length mem" and "int k < n"
    using k_lt len by auto
  then show ?thesis
    using seg_k nth [OF k_lt] before by (simp add: i)
qed

lemma memchr_bounds:
  "memchr mem start c n = Some i \<Longrightarrow> start \<le> i \<and> i < length mem"
  using memchr_Some by blast

text \<open>
  The lambda \<^verbatim>\<open>expandTabs\<close> of \<^verbatim>\<open>parseDataBlock\<close>; \<open>tab_search_start\<close> is an index
  into the block. Each round is one iteration of its \<^verbatim>\<open>while\<close> loop, entered with the
  result of the \<^verbatim>\<open>memchr\<close> that precedes it. (The assignment to \<^verbatim>\<open>pos_within_block\<close>
  is overwritten by the caller right after the call.)
\<close>

function expandTabs ::
  "string \<Rightarrow> int \<Rightarrow> 'c IndexingState \<Rightarrow> nat \<Rightarrow> int \<Rightarrow> 'c IndexingState" where
  "expandTabs block block_beginning state tab_search_start line_size =
     (case memchr block tab_search_start TAB line_size of
        None \<Rightarrow> state
      | Some next_tab \<Rightarrow>
          let pos_within_block = int next_tab - beforeCrOffset (encodingParams state);
              state' = state\<lparr>additional_spaces :=
                 additional_spaces state
                 + (tabStop
                    - (static_cast_int ((block_beginning - pos state) + pos_within_block
                                         + additional_spaces state) smod tabStop)
                    - 1)\<rparr>;
              tab_substring_size = int next_tab - int tab_search_start;
              line_size' = line_size - tab_substring_size
          in if line_size' > 0
             then expandTabs block block_beginning state' (next_tab + 1) line_size'
             else state')"
  by pat_completeness auto
termination
  by (relation "measure (\<lambda>(block, block_beginning, state, tab_search_start, line_size).
        length block - tab_search_start)") (auto dest!: memchr_bounds)

text \<open>
  The \<^verbatim>\<open>while ( pos_within_block != -1 )\<close> loop of \<^verbatim>\<open>parseDataBlock\<close>. One unfolding is
  one iteration. Nothing in the source bounds the number of iterations (a codec whose
  parameters move \<^verbatim>\<open>state.pos\<close> back behind the line feed just found would find it
  again), so the loop is a partial function: \<open>None\<close> is the loop that does not end.
  \<^verbatim>\<open>LineLength::UnderlyingType\<close> is declared outside the given sources; the conversion
  of the length of a line to it is taken to keep the value.
\<close>

partial_function (option) parseLoop ::
  "string \<Rightarrow> int \<Rightarrow> 'c IndexingState \<Rightarrow> LinePositionArray
     \<Rightarrow> ('c IndexingState \<times> LinePositionArray) option" where
  "parseLoop block block_beginning state line_positions =
     (let pos_within_block = max (static_cast_int (pos state - block_beginning)) 0;
          search_start = nat pos_within_block;
          search_line_size = int (length block) - pos_within_block
      in if search_line_size > 0
         then
           (case memchr block search_start LF search_line_size of
              Some next_line_feed \<Rightarrow>
                let state1 = expandTabs block block_beginning state search_start
                               (int next_line_feed - int search_start);
                    pos_within_block' = int next_line_feed - beforeCrOffset (encodingParams state1)
                in if pos_within_block' \<noteq> - 1
                   then
                     let end = pos_within_block' + block_beginning;
                         len = end - pos state1 + additional_spaces state1;
                         state2 = state1\<lparr>line_end := end,
                                    max_length := (if len > max_length state1 then len
                                                   else max_length state1),
                                    pos := end + lineFeedWidth (encodingParams state1),
                                    additional_spaces := 0\<rparr>
                     in parseLoop block block_beginning state2
                          (append line_positions (pos state2))
                   else Some (state1, line_positions)
            | None \<Rightarrow>
                Some (expandTabs block block_beginning state search_start search_line_size,
                      line_positions))
         else Some (state, line_positions))"

text \<open>\<^verbatim>\<open>IndexOperation::parseDataBlock\<close>.\<close>

definition parseDataBlock ::
  "int \<Rightarrow> string \<Rightarrow> 'c IndexingState \<Rightarrow> ('c IndexingState \<times> LinePositionArray) option" where
  "parseDataBlock block_beginning block state =
     parseLoop block block_beginning (state\<lparr>max_length := 0\<rparr>) empty_array"

text \<open>
  \<^verbatim>\<open>IndexOperation::guessEncoding\<close>. After its first statement the guess of the pass is
  not null, so the codec chosen by the second is the forced one, else the guess of the
  index, else the guess of the pass.
\<close>

definition guessEncoding ::
  "'c env \<Rightarrow> 'c IndexingData \<Rightarrow> string \<Rightarrow> 'c IndexingState \<Rightarrow> 'c IndexingState" where
  "guessEncoding e d block state =
     (let guess = (case st_encodingGuess state of
                     None \<Rightarrow> detectEncoding e block
                   | Some g \<Rightarrow> g);
          state1 = state\<lparr>st_encodingGuess := Some guess\<rparr>
      in if fileTextCodec state1 = None
         then
           let codec = (case getForcedEncoding d of
                          Some c \<Rightarrow> c
                        | None \<Rightarrow> (case getEncodingGuess d of Some c \<Rightarrow> c | None \<Rightarrow> guess))
           in state1\<lparr>fileTextCodec := Some codec, encodingParams := encodingParameters e codec\<rparr>
         else state1)"

subsection \<open>Single precision\<close>

text \<open>
  The block parser computes its progress value in \<^verbatim>\<open>float\<close>. A \<^verbatim>\<open>float\<close> is modelled by
  the real number that it denotes, and \<open>float_of x\<close> is the \<^verbatim>\<open>float\<close> nearest to \<open>x\<close>: the
  significand has 24 bits and a tie goes to the even significand (IEEE 754 binary32,
  the default rounding). The range of the exponent is left open: the operands of the
  source are 64-bit integers, and no product or quotient of the progress computation
  leaves the range of the normal numbers. Conversions and operations are taken to be
  rounded once, to \<^verbatim>\<open>float\<close>.

  \<open>float_exponent x\<close> is \<open>\<lfloor>log\<^sub>2 x\<rfloor>\<close> for \<open>x > 0\<close>, and \<open>pow2 e\<close> is \<open>2\<^sup>e\<close>.
\<close>

definition float_exponent :: "real \<Rightarrow> int" where
  "float_exponent x =
     (if 1 \<le> x then int (floorlog 2 (nat \<lfloor>x\<rfloor>)) - 1
      else - int (floorlog 2 (nat (\<lceil>1 / x\<rceil> - 1))))"

definition pow2 :: "int \<Rightarrow> real" where
  "pow2 e = (if 0 \<le> e then 2 ^ nat e else 1 / 2 ^ nat (- e))"

definition round_to_even :: "real \<Rightarrow> int" where
  "round_to_even y =
     (let m = \<lfloor>y\<rfloor>;
          r = y - of_int m
      in if r > 1 / 2 \<or> (r = 1 / 2 \<and> odd m) then m + 1 else m)"

definition float_of :: "real \<Rightarrow> real" where
  "float_of x =
     (if x = 0 then 0
      else
        let e = float_exponent \<bar>x\<bar> - 23
        in sgn x * of_int (round_to_even (\<bar>x\<bar> / pow2 e)) * pow2 e)"

subsection \<open>Progress events\<close>

text \<open>
  The value given to \<^verbatim>\<open>indexingProgressed\<close>:
  \<^verbatim>\<open>static_cast<int>( std::floor( ( state.file_size > 0 ) ? state.pos * 100.f / state.file_size : 100 ) )\<close>.
  The two 64-bit operands are converted to \<^verbatim>\<open>float\<close>, the product and the quotient are
  rounded to \<^verbatim>\<open>float\<close>, and the other branch of the conditional is the \<^verbatim>\<open>float\<close> 100.
  A division is checked: dividing by zero is the value \<open>Inl DivisionByZero\<close>. The
  conversion of a \<^verbatim>\<open>float\<close> to \<^verbatim>\<open>int\<close> is checked as well: it is undefined when the value
  does not fit, which is the value \<open>Inl IntOutOfRange\<close>.
\<close>

datatype arith_error = DivisionByZero | IntOutOfRange

type_synonym progress_event = "arith_error + int"

definition divide_checked :: "real \<Rightarrow> real \<Rightarrow> arith_error + real" where
  "divide_checked a b = (if b = 0 then Inl DivisionByZero else Inr (float_of (a / b)))"

definition float_to_int :: "real \<Rightarrow> arith_error + int" where
  "float_to_int x =
     (let v = (if 0 \<le> x then \<lfloor>x\<rfloor> else \<lceil>x\<rceil>)
      in if - 2147483648 \<le> v \<and> v \<le> 2147483647 then Inr v else Inl IntOutOfRange)"

definition progress :: "'c IndexingState \<Rightarrow> progress_event" where
  "progress state =
     (if file_size state > 0
      then (case divide_checked (float_of (float_of (of_int (pos state)) * 100))
                   (float_of (of_int (file_size state))) of
              Inl err \<Rightarrow> Inl err
            | Inr q \<Rightarrow> float_to_int (of_int \<lfloor>q\<rfloor>))
      else float_to_int (of_int \<lfloor>100 :: real\<rfloor>))"

subsection \<open>The indexing pass\<close>

definition sizeChunk :: nat where
  "sizeChunk = 1024 * 1024"

text \<open>
  The body of the \<^verbatim>\<open>blockReader\<close> source node, called until it returns \<^verbatim>\<open>false\<close>:
  \<open>fpos\<close> is \<^verbatim>\<open>file.pos()\<close>, \<open>k\<close> the number of the read of the interrupt flag that
  this call makes. The result is the blocks sent, in order, and the number of the next
  read of the flag.
\<close>

function blockReader ::
  "nat option \<Rightarrow> string \<Rightarrow> nat \<Rightarrow> nat \<Rightarrow> (int \<times> string) list \<times> nat" where
  "blockReader t content fpos k =
     (if interruptRequest t k then ([], Suc k)
      else if fpos < length content
      then
        let block = take sizeChunk (drop fpos content);
            rest = blockReader t content (fpos + length block) (Suc k)
        in ((int fpos, block) # fst rest, snd rest)
      else ([], Suc k))"
  by pat_completeness auto
termination
  by (relation "measure (\<lambda>(t, content, fpos, k). length content - fpos)")
     (auto simp: sizeChunk_def)

text \<open>
  The body of the \<^verbatim>\<open>blockParser\<close> function node. The node is serial and fed from a
  queue, so it sees the blocks in the order in which they were read. What it works on is
  the state of the pass, the shared index and the progress events emitted so far.
\<close>

definition blockParser ::
  "'c env \<Rightarrow> 'c IndexingState \<times> 'c IndexingData \<times> progress_event list \<Rightarrow> int \<times> string
     \<Rightarrow> ('c IndexingState \<times> 'c IndexingData \<times> progress_event list) option" where
  "blockParser e run blockData =
     (case run of (state, d, events) \<Rightarrow>
      case blockData of (block_beginning, block) \<Rightarrow>
        let state1 = guessEncoding e d block state
        in if block \<noteq> []
           then
             (case parseDataBlock block_beginning block state1 of
                None \<Rightarrow> None
              | Some (state2, line_positions) \<Rightarrow>
                  Some (state2,
                        addAll e d block (max_length state2) line_positions
                          (st_encodingGuess state2),
                        events @ [progress state2]))
           else Some (state1, setEncodingGuess d (st_encodingGuess state1), events))"

fun runParser ::
  "'c env \<Rightarrow> 'c IndexingState \<times> 'c IndexingData \<times> progress_event list \<Rightarrow> (int \<times> string) list
     \<Rightarrow> ('c IndexingState \<times> 'c IndexingData \<times> progress_event list) option" where
  "runParser e run [] = Some run"
| "runParser e run (blockData # blocks) =
     (case blockParser e run blockData of
        None \<Rightarrow> None
      | Some run' \<Rightarrow> runParser e run' blocks)"

text \<open>
  \<^verbatim>\<open>IndexOperation::doIndex\<close>, entered with the number \<open>k\<close> of the next read of the
  interrupt flag, the index \<open>d\<close> and the events emitted so far. The result is \<open>None\<close>
  when the scan of a block does not end.
\<close>

definition doIndex ::
  "'c env \<Rightarrow> disk_file \<Rightarrow> nat option \<Rightarrow> nat \<Rightarrow> int \<Rightarrow> 'c IndexingData \<Rightarrow> progress_event list
     \<Rightarrow> ('c IndexingData \<times> progress_event list \<times> nat) option" where
  "doIndex e f t k initialPosition d events =
     (if \<not> file_open f
      then Some (setEncodingGuess (clear d) (Some (codecForLocale e)), events @ [Inr 100], k)
      else
        let state = \<lparr>encodingParams = defaultEncodingParameters e,
                     pos = initialPosition,
                     max_length = 0,
                     additional_spaces = 0,
                     line_end = 0,
                     file_size = int (length (file_bytes f)),
                     st_encodingGuess = getEncodingGuess d,
                     fileTextCodec = (case getForcedEncoding d of
                                        None \<Rightarrow> getEncodingGuess d
                                      | Some c \<Rightarrow> Some c)\<rparr>;
            sent = blockReader t (file_bytes f) (nat (pos state)) k;
            k' = snd sent
        in case runParser e (state, d, events) (fst sent) of
             None \<Rightarrow> None
           | Some (state', d', events') \<Rightarrow>
               let d1 = (if \<not> interruptRequest t k' \<and> file_size state' > pos state'
                         then addAll e d' [] 0
                                (setFakeFinalLF (append empty_array (file_size state' + 1)))
                                (st_encodingGuess state')
                         else d');
                   d2 = (if getEncodingGuess d1 = None
                         then setEncodingGuess d1 (Some (codecForLocale e))
                         else d1)
               in Some (d2, events', Suc k'))"

text \<open>
  \<^verbatim>\<open>FullIndexOperation::start\<close> and \<^verbatim>\<open>PartialIndexOperation::start\<close>: the result, the
  index and the progress events of the operation.
\<close>

definition FullIndexOperation_start ::
  "'c env \<Rightarrow> disk_file \<Rightarrow> 'c option \<Rightarrow> nat option \<Rightarrow> 'c IndexingData
     \<Rightarrow> (OperationResult \<times> 'c IndexingData \<times> progress_event list) option" where
  "FullIndexOperation_start e f forcedEncoding t d =
     (case doIndex e f t 0 0 (forceEncoding (clear d) forcedEncoding) [Inr 0] of
        None \<Rightarrow> None
      | Some (d', events, k) \<Rightarrow>
          Some (Completion (if interruptRequest t k then False else True), d', events))"

definition PartialIndexOperation_start ::
  "'c env \<Rightarrow> disk_file \<Rightarrow> nat option \<Rightarrow> 'c IndexingData
     \<Rightarrow> (OperationResult \<times> 'c IndexingData \<times> progress_event list) option" where
  "PartialIndexOperation_start e f t d =
     (let initial_position = getSize d
      in case doIndex e f t 0 initial_position d [Inr 0] of
           None \<Rightarrow> None
         | Some (d', events, k) \<Rightarrow>
             Some (Completion (if interruptRequest t k then False else True), d', events))"

subsection \<open>A sample environment\<close>

text \<open>
  A concrete environment on which the operations can be run: one codec (an 8-bit one,
  line feed one byte wide, no offset), and in the place of MD5 a function that, like
  MD5, returns 16 bytes for every input (the input cut or padded with NUL to 16 bytes).
\<close>

datatype sample_codec = Latin1

definition zeros16 :: string where
  "zeros16 = [CHR 0x00, CHR 0x00, CHR 0x00, CHR 0x00, CHR 0x00, CHR 0x00, CHR 0x00, CHR 0x00,
              CHR 0x00, CHR 0x00, CHR 0x00, CHR 0x00, CHR 0x00, CHR 0x00, CHR 0x00, CHR 0x00]"

definition sample_env :: "sample_codec env" where
  "sample_env =
     \<lparr>md5 = (\<lambda>bytes. take 16 (bytes @ zeros16)),
      detectEncoding = (\<lambda>block. Latin1),
      encodingParameters = (\<lambda>codec. \<lparr>lineFeedWidth = 1, beforeCrOffset = 0\<rparr>),
      defaultEncodingParameters = \<lparr>lineFeedWidth = 1, beforeCrOffset = 0\<rparr>,
      codecForLocale = Latin1\<rparr>"

definition readable_file :: "string \<Rightarrow> disk_file" where
  "readable_file bytes = \<lparr>file_exists = True, file_readable = True, file_bytes = bytes\<rparr>"

definition missing_file :: disk_file where
  "missing_file = \<lparr>file_exists = False, file_readable = False, file_bytes = []\<rparr>"

section \<open>Evaluating the loops\<close>

text \<open>
  The recursive equations of the loops are unfolded by hand. For a concrete input the two
  lemmas below unfold one iteration behind an \<open>if\<close>, so that the simplifier runs a loop
  on its input and stops with it.
\<close>

declare readLoop.simps [simp del] expandTabs.simps [simp del] blockReader.simps [simp del]

lemma expandTabs_eval:
  "expandTabs block block_beginning state tab_search_start line_size =
     (if memchr block tab_search_start TAB line_size = None then state
      else
        let next_tab = the (memchr block tab_search_start TAB line_size);
            state' = state\<lparr>additional_spaces :=
               additional_spaces state
               + (tabStop
                  - (static_cast_int ((block_beginning - pos state)
                       + (int next_tab - beforeCrOffset (encodingParams state))
                       + additional_spaces state) smod tabStop)
                  - 1)\<rparr>;
            line_size' = line_size - (int next_tab - int tab_search_start)
        in if line_size' > 0
           then expandTabs block block_beginning state' (next_tab + 1) line_size'
           else state')"
proof (cases "memchr block tab_search_start TAB line_size")
  case None
  then show ?thesis by (subst expandTabs.simps) simp
next
  case (Some next_tab)
  then show ?thesis
    by (subst expandTabs.simps) (simp only: option.case option.sel Let_def option.distinct if_False simp_thms)
qed

lemma parseLoop_eval:
  "parseLoop block block_beginning state line_positions =
     (let pos_within_block = max (static_cast_int (pos state - block_beginning)) 0;
          search_line_size = int (length block) - pos_within_block
      in if search_line_size > 0
         then
           if memchr block (nat pos_within_block) LF search_line_size = None
           then Some (expandTabs block block_beginning state (nat pos_within_block)
                        search_line_size, line_positions)
           else
             let next_line_feed = the (memchr block (nat pos_within_block) LF search_line_size);
                 state1 = expandTabs block block_beginning state (nat pos_within_block)
                            (int next_line_feed - int (nat pos_within_block));
                 pos_within_block' = int next_line_feed - beforeCrOffset (encodingParams state1)
             in if pos_within_block' \<noteq> - 1
                then
                  let end = pos_within_block' + block_beginning;
                      len = end - pos state1 + additional_spaces state1;
                      state2 = state1\<lparr>line_end := end,
                                 max_length := (if len > max_length state1 then len
                                                else max_length state1),
                                 pos := end + lineFeedWidth (encodingParams state1),
                                 additional_spaces := 0\<rparr>
                  in parseLoop block block_beginning state2
                       (append line_positions (pos state2))
                else Some (state1, line_positions)
         else Some (state, line_positions))"
proof (cases "memchr block (nat (max (static_cast_int (pos state - block_beginning)) 0)) LF
                (int (length block) - max (static_cast_int (pos state - block_beginning)) 0)")
  case None
  then show ?thesis by (subst parseLoop.simps) (simp only: option.case Let_def if_True simp_thms)
next
  case (Some next_line_feed)
  then show ?thesis
    by (subst parseLoop.simps) (simp only: option.case option.sel Let_def option.distinct if_False simp_thms)
qed

lemma floorlog_eval:
  "floorlog 2 x = (if x = 0 then 0 else Suc (floorlog 2 (x div 2)))"
  by (subst compute_floorlog) simp

lemmas float_defs =
  float_of_def float_exponent_def round_to_even_def pow2_def floorlog_eval float_to_int_def

lemmas run_defs =
  float_defs
  FullIndexOperation_start_def PartialIndexOperation_start_def doIndex_def blockParser_def
  parseDataBlock_def guessEncoding_def addAll_def clear_def forceEncoding_def
  setEncodingGuess_def getEncodingGuess_def getForcedEncoding_def getSize_def
  append_list_def append_def setFakeFinalLF_def empty_array_def empty_index_def
  progress_def divide_checked_def static_cast_int_def memchr_def tabStop_def
  interruptRequest_def sizeChunk_def file_open_def readable_file_def sample_env_def zeros16_def
  signed_modulo_int_def blockReader.simps parseLoop_eval expandTabs_eval
  LF_def TAB_def Let_def

lemma static_cast_int_id:
  "- 2147483648 \<le> x \<Longrightarrow> x < 2147483648 \<Longrightarrow> static_cast_int x = x"
  by (simp add: static_cast_int_def)

text \<open>
  The two runs that the witnesses below share: the file \<open>a\<newline>b\<close> (two lines, the
  second without a line feed) indexed in full.
\<close>

definition file_a_b :: string where
  "file_a_b = [CHR ''a'', LF, CHR ''b'']"

definition index_a_b :: "sample_codec IndexingData" where
  "index_a_b =
     \<lparr>linePosition = \<lparr>array = [2, 4], fakeFinalLF = True\<rparr>,
      maxLength = 1,
      indexedHash = \<lparr>hash = [CHR ''a'', LF, CHR ''b''] @ take 13 zeros16, size' = 3\<rparr>,
      indexHash = [CHR ''a'', LF, CHR ''b''],
      encodingGuess = Some Latin1,
      encodingForced = None\<rparr>"

lemma FullIndex_file_a_b:
  "FullIndexOperation_start sample_env (readable_file file_a_b) None None d =
     Some (Completion True, index_a_b, [Inr 0, Inr 66])"
  by (simp add: run_defs file_a_b_def index_a_b_def)

section \<open>CheckFileChangesOperation\<close>


lemma readLoop_empty_buffer: "readLoop content 0 indexedSize 0 [] 0 = []"
  by (subst readLoop.simps) simp


text \<open>
  Claim C1 (what \<^verbatim>\<open>CheckFileChangesOperation::start\<close> returns; the code falls short of
  it). The claim ranges over every attached file and every index. It holds while
  \<open>hash.size < 2^31\<close> (lemma \<open>CheckFileChanges_below_2GiB\<close>). From \<open>2^31\<close> on the
  \<^verbatim>\<open>static_cast<int>\<close> in the size of the read buffer wraps around. For a file of
  \<open>2^31\<close> bytes (2 GiB) that was indexed to its end and has not changed since, the
  buffer is empty, nothing is read, and the stored hash (the MD5 of the \<open>2^31\<close> bytes) is
  compared with the MD5 of no bytes: the operation answers \<open>Unchanged\<close> only if these two
  digests are equal, and \<open>Truncated\<close> otherwise, where the claim says \<open>Unchanged\<close>.
\<close>

theorem CheckFileChanges_at_2GiB:
  "CheckFileChangesOperation_start e (readable_file (replicate 2147483648 c))
     (d\<lparr>indexedHash := \<lparr>hash = md5 e (replicate 2147483648 c), size' = 2147483648\<rparr>\<rparr>)
   = (FileStatus (if md5 e (replicate 2147483648 c) = md5 e [] then Unchanged else Truncated),
      d\<lparr>indexedHash := \<lparr>hash = md5 e (replicate 2147483648 c), size' = 2147483648\<rparr>\<rparr>)"
  by (simp add: CheckFileChangesOperation_start_def getHash_def info_size_def readable_file_def
      file_open_def static_cast_int_def readLoop_empty_buffer)

text \<open>
  Claim C9 (\<^verbatim>\<open>CheckFileChangesOperation::start\<close> never modifies \<^verbatim>\<open>IndexingData\<close>): for
  every environment, file and index, whatever status is returned, the index after the
  call is the index before the call, field by field.
\<close>

theorem CheckFileChanges_frame:
  "snd (CheckFileChangesOperation_start e f d) = d
   \<and> (\<exists>status. fst (CheckFileChangesOperation_start e f d) = FileStatus status)"
  by (simp add: CheckFileChangesOperation_start_def Let_def)

section \<open>Failure to open the file\<close>

text \<open>
  Claim C7 (the file cannot be opened during a full or partial index): the operation
  leaves the index cleared in every field but the encoding guess, which is the codec of
  the locale; after the progress event 0 that every \<^verbatim>\<open>start\<close> emits first there is one
  more progress event, 100; and the result is \<open>Completion True\<close> unless the interrupt flag
  is set when \<^verbatim>\<open>start\<close> reads it for its result (read number 0, the only read of such a
  run).
\<close>

theorem open_failure_is_empty_file:
  assumes "\<not> file_open f"
  shows "FullIndexOperation_start e f forcedEncoding t d =
           Some (Completion (\<not> interruptRequest t 0),
                 empty_index\<lparr>encodingGuess := Some (codecForLocale e)\<rparr>,
                 [Inr 0, Inr 100])
       \<and> PartialIndexOperation_start e f t d =
           Some (Completion (\<not> interruptRequest t 0),
                 empty_index\<lparr>encodingGuess := Some (codecForLocale e)\<rparr>,
                 [Inr 0, Inr 100])"
  using assms
  by (simp add: FullIndexOperation_start_def PartialIndexOperation_start_def doIndex_def
      clear_def setEncodingGuess_def empty_index_def)

theorem open_failure_is_empty_file_witness:
  "\<not> file_open missing_file
   \<and> FullIndexOperation_start sample_env missing_file (Some Latin1) None
         (empty_index\<lparr>maxLength := 7\<rparr>) =
       Some (Completion True, empty_index\<lparr>encodingGuess := Some Latin1\<rparr>, [Inr 0, Inr 100])
   \<and> PartialIndexOperation_start sample_env missing_file None
         (empty_index\<lparr>maxLength := 7\<rparr>) =
       Some (Completion True, empty_index\<lparr>encodingGuess := Some Latin1\<rparr>, [Inr 0, Inr 100])"
  using open_failure_is_empty_file [of missing_file sample_env "Some Latin1" None
      "empty_index\<lparr>maxLength := 7\<rparr>"]
  by (simp add: file_open_def missing_file_def interruptRequest_def sample_env_def)

section \<open>Progress\<close>

text \<open>
  The \<^verbatim>\<open>float\<close> of a positive number \<open>x\<close> lies between \<open>x / 2\<close> and \<open>2 * x\<close> (the
  significand that is rounded is at least 1). So the divisor of the progress
  computation, the \<^verbatim>\<open>float\<close> of a positive file size, is not zero.
\<close>

lemma pow2_pos: "0 < pow2 e"
  by (simp add: pow2_def)

lemma pow2_scale:
  assumes "0 < x"
  shows "pow2 (float_exponent x - 23) \<le> x"
proof (cases "1 \<le> x")
  case True
  define n where "n = nat \<lfloor>x\<rfloor>"
  define e where "e = float_exponent x - 23"
  have n: "0 < n" "real n \<le> x"
    using True by (simp_all add: n_def)
  have e: "e = int (floorlog 2 n) - 24"
    using True by (simp add: e_def float_exponent_def n_def)
  have "pow2 e \<le> x"
  proof (cases "0 \<le> e")
    case True
    then have "nat e \<le> floorlog 2 n - 1" by (simp add: e)
    then have "(2 :: nat) ^ nat e \<le> 2 ^ (floorlog 2 n - 1)"
      by (intro power_increasing) simp_all
    also have "\<dots> \<le> n" using floorlog_bounds [of n 2] n(1) by simp
    finally have "real ((2 :: nat) ^ nat e) \<le> real n" by (simp only: of_nat_le_iff)
    then have "(2 :: real) ^ nat e \<le> real n" by simp
    also note n(2)
    finally show ?thesis using True by (simp add: pow2_def)
  next
    case False
    have "1 / 2 ^ nat (- e) \<le> (1 :: real)" by simp
    also note \<open>1 \<le> x\<close>
    finally show ?thesis using False by (simp add: pow2_def)
  qed
  then show ?thesis by (simp add: e_def)
next
  case False
  define c where "c = \<lceil>1 / x\<rceil>"
  define n where "n = nat (c - 1)"
  define L where "L = floorlog 2 n"
  have inv: "1 < 1 / x" using False assms by simp
  have up: "1 / x \<le> of_int c" by (simp add: c_def)
  with inv have "1 < c" by linarith
  then have n: "0 < n" "int n + 1 = c" by (simp_all add: n_def)
  have "n < 2 ^ L" using floorlog_bounds [of n 2] n(1) by (simp add: L_def)
  then have "n + 1 \<le> 2 ^ L" by simp
  then have "real (n + 1) \<le> real (2 ^ L)" by (simp only: of_nat_le_iff)
  then have "real_of_int (int n + 1) \<le> 2 ^ L" by simp
  then have "real_of_int c \<le> 2 ^ L" by (simp only: n(2))
  with up have "1 / x \<le> 2 ^ L" by linarith
  also have "(2 :: real) ^ L \<le> 2 ^ (L + 23)" by (intro power_increasing) simp_all
  finally have "1 / x \<le> 2 ^ (L + 23)" .
  then have "1 / 2 ^ (L + 23) \<le> x"
    using assms by (simp add: field_simps)
  moreover have "float_exponent x - 23 = - int (L + 23)"
    using False by (simp add: float_exponent_def L_def n_def c_def)
  moreover have "nat (23 + int L) = L + 23" by simp
  ultimately show ?thesis by (simp add: pow2_def)
qed

lemma round_to_even_bounds:
  assumes "1 \<le> y"
  shows "y / 2 \<le> of_int (round_to_even y)" and "of_int (round_to_even y) \<le> 2 * y"
proof -
  define m where "m = \<lfloor>y\<rfloor>"
  have m: "of_int m \<le> y" "y < of_int m + 1" "1 \<le> m"
    using assms by (simp_all add: m_def le_floor_iff)
  have r: "round_to_even y = m \<or> round_to_even y = m + 1"
    by (simp add: round_to_even_def Let_def m_def)
  have "y / 2 \<le> of_int m"
  proof (cases "2 \<le> y")
    case True
    with m(2) show ?thesis by linarith
  next
    case False
    with m(3) show ?thesis by simp
  qed
  with r show "y / 2 \<le> of_int (round_to_even y)" by auto
  from r m(1) assms show "of_int (round_to_even y) \<le> 2 * y" by auto
qed

lemma float_of_bounds:
  assumes "0 < x"
  shows "x / 2 \<le> float_of x" and "float_of x \<le> 2 * x"
proof -
  define e where "e = float_exponent x - 23"
  define y where "y = x / pow2 e"
  have p: "0 < pow2 e" by (rule pow2_pos)
  have "pow2 e \<le> x" using pow2_scale [OF assms] by (simp add: e_def)
  then have y: "1 \<le> y" using p by (simp add: y_def le_divide_eq)
  have x: "y / 2 * pow2 e = x / 2" "2 * y * pow2 e = 2 * x"
    using p by (simp_all add: y_def)
  have f: "float_of x = of_int (round_to_even y) * pow2 e"
    using assms by (simp add: float_of_def Let_def e_def y_def)
  from round_to_even_bounds [OF y] p
  have "y / 2 * pow2 e \<le> of_int (round_to_even y) * pow2 e"
    and "of_int (round_to_even y) * pow2 e \<le> 2 * y * pow2 e"
    by (simp_all add: mult_right_mono)
  then show "x / 2 \<le> float_of x" and "float_of x \<le> 2 * x"
    by (simp_all only: f x)
qed

lemma float_of_zero: "float_of 0 = 0"
  by (simp add: float_of_def)

lemma float_of_nonneg:
  assumes "0 \<le> x"
  shows "0 \<le> float_of x"
proof (cases "x = 0")
  case True
  then show ?thesis by (simp add: float_of_zero)
next
  case False
  with assms have "0 < x" by simp
  from float_of_bounds(1) [OF this] this show ?thesis by linarith
qed

lemma float_of_le:
  assumes "0 \<le> x"
  shows "float_of x \<le> 2 * x"
proof (cases "x = 0")
  case True
  then show ?thesis by (simp add: float_of_zero)
next
  case False
  with assms have "0 < x" by simp
  then show ?thesis by (rule float_of_bounds(2))
qed

lemma float_of_pos:
  assumes "1 \<le> x"
  shows "0 < float_of x"
proof -
  from assms have "0 < x" by simp
  from float_of_bounds(1) [OF this] this show ?thesis by linarith
qed

lemma float_to_int_total: "float_to_int x \<noteq> Inl DivisionByZero"
  by (simp add: float_to_int_def Let_def)

lemma progress_total: "progress state \<noteq> Inl DivisionByZero"
proof (cases "file_size state > 0")
  case True
  then have "0 < float_of (of_int (file_size state))"
    by (intro float_of_pos) simp
  then show ?thesis
    using True by (simp add: progress_def divide_checked_def float_to_int_total)
next
  case False
  then show ?thesis by (simp add: progress_def float_to_int_total)
qed

lemma progress_without_size: "file_size state \<le> 0 \<Longrightarrow> progress state = Inr 100"
  by (simp add: progress_def float_to_int_def)

text \<open>
  The quotient is the one of the \<^verbatim>\<open>float\<close> arithmetic, not the integer quotient: at
  position \<open>2^24\<close> of a file of \<open>2^24 + 1\<close> bytes the file size is rounded to \<open>2^24\<close> and the
  value is 100, where \<open>pos * 100 div file_size\<close> is 99.
\<close>

lemma progress_single_precision:
  "file_size state = 16777217 \<Longrightarrow> pos state = 16777216 \<Longrightarrow> progress state = Inr 100"
  by (simp add: progress_def divide_checked_def float_defs)

lemma quotient_bounds:
  fixes p fs :: int
  assumes "0 \<le> p" and "p \<le> fs + 3" and "1 \<le> fs"
  shows "0 \<le> float_of (float_of (float_of (of_int p) * 100) / float_of (of_int fs))"
    and "float_of (float_of (float_of (of_int p) * 100) / float_of (of_int fs)) \<le> 6400"
proof -
  define a where "a = float_of (of_int p)"
  define b where "b = float_of (a * 100)"
  define c where "c = float_of (of_int fs)"
  have a: "0 \<le> a" "a \<le> 2 * of_int p"
    using assms(1) by (simp_all add: a_def float_of_nonneg float_of_le)
  have b: "0 \<le> b" "b \<le> 400 * of_int p"
    using a float_of_nonneg [of "a * 100"] float_of_le [of "a * 100"] by (simp_all add: b_def)
  have c: "of_int fs / 2 \<le> c" "0 < c"
    using float_of_bounds(1) [of "of_int fs"] assms(3) by (simp_all add: c_def)
  have "b / c \<le> (400 * of_int p) / (of_int fs / 2)"
    using b c assms by (intro frac_le) simp_all
  also have "\<dots> = 800 * (of_int p / of_int fs)" by simp
  also have "of_int p / of_int fs \<le> (4 :: real)"
    using assms by (simp add: divide_le_eq)
  finally have q: "b / c \<le> 3200" by simp
  have q0: "0 \<le> b / c" using b c by simp
  show "0 \<le> float_of (float_of (float_of (of_int p) * 100) / float_of (of_int fs))"
    using float_of_nonneg [OF q0] by (simp add: a_def b_def c_def)
  show "float_of (float_of (float_of (of_int p) * 100) / float_of (of_int fs)) \<le> 6400"
    using float_of_le [OF q0] q by (simp add: a_def b_def c_def)
qed

text \<open>
  The progress value fits an \<^verbatim>\<open>int\<close> when \<open>state.pos\<close> is not negative and at most three
  bytes past the end of the file.
\<close>

definition in_range :: "progress_event \<Rightarrow> bool" where
  "in_range ev = (case ev of Inl err \<Rightarrow> False | Inr v \<Rightarrow> 0 \<le> v \<and> v \<le> 6400)"

lemma progress_in_range:
  assumes "0 \<le> pos state" and "pos state \<le> file_size state + 3"
  shows "in_range (progress state)"
proof (cases "file_size state > 0")
  case True
  define q where "q = float_of (float_of (float_of (of_int (pos state)) * 100)
                          / float_of (of_int (file_size state)))"
  from True have "0 < float_of (of_int (file_size state))"
    by (intro float_of_pos) simp
  then have p: "progress state = float_to_int (of_int \<lfloor>q\<rfloor>)"
    using True by (simp add: progress_def divide_checked_def q_def)
  from quotient_bounds [OF assms(1,2)] True have "0 \<le> q" "q \<le> 6400"
    by (simp_all add: q_def)
  then have "0 \<le> \<lfloor>q\<rfloor>" "\<lfloor>q\<rfloor> \<le> 6400"
    by (simp_all add: floor_le_iff)
  then show ?thesis
    by (simp add: p float_to_int_def in_range_def)
next
  case False
  then show ?thesis by (simp add: progress_def float_to_int_def in_range_def)
qed

lemma blockParser_events:
  assumes "blockParser e (state, d, events) blockData = Some (state', d', events')"
    and "Inl DivisionByZero \<notin> set events"
  shows "Inl DivisionByZero \<notin> set events'"
proof -
  from assms(1) have "events' = events \<or> events' = events @ [progress state']"
    by (auto simp: blockParser_def Let_def split: prod.splits if_splits option.splits)
  with assms(2) progress_total [of state'] show ?thesis by auto
qed

lemma runParser_events:
  "runParser e (state, d, events) blocks = Some (state', d', events')
   \<Longrightarrow> Inl DivisionByZero \<notin> set events \<Longrightarrow> Inl DivisionByZero \<notin> set events'"
proof (induction blocks arbitrary: state d events)
  case Nil
  then show ?case by simp
next
  case (Cons blockData blocks)
  from Cons.prems(1) obtain s1 d1 ev1 where
    step: "blockParser e (state, d, events) blockData = Some (s1, d1, ev1)"
    and rest: "runParser e (s1, d1, ev1) blocks = Some (state', d', events')"
    by (auto split: option.splits)
  from blockParser_events [OF step Cons.prems(2)] Cons.IH [OF rest] show ?case by blast
qed

lemma doIndex_events:
  assumes "doIndex e f t k initialPosition d events = Some (d', events', k')"
    and "Inl DivisionByZero \<notin> set events"
  shows "Inl DivisionByZero \<notin> set events'"
proof (cases "file_open f")
  case False
  with assms show ?thesis by (auto simp: doIndex_def)
next
  case True
  with assms(1) obtain state0 blocks s1 d1 where
    "runParser e (state0, d, events) blocks = Some (s1, d1, events')"
    by (auto simp: doIndex_def Let_def split: option.splits prod.splits)
  from runParser_events [OF this assms(2)] show ?thesis .
qed

text \<open>
  Claim C10 (the progress computation is total). For every state of the pass the
  progress value of the block parser is not the result of a division by zero: the
  division \<^verbatim>\<open>state.pos * 100.f / state.file_size\<close> is behind the test
  \<^verbatim>\<open>state.file_size > 0\<close>, where the divisor, the \<^verbatim>\<open>float\<close> of the file size, is not zero;
  when \<open>state.file_size\<close> is 0 the value is 100. So the block parser, in whatever state
  of the pass and on whatever block it is called, adds no division by zero to the
  progress events, and no progress event of a full or a partial index is one.
\<close>

theorem progress_never_divides_by_zero:
  "progress state \<noteq> Inl DivisionByZero
   \<and> (file_size state = 0 \<longrightarrow> progress state = Inr 100)
   \<and> (\<forall>state' d' events'.
          blockParser e (state, d, events0) blockData = Some (state', d', events')
          \<longrightarrow> Inl DivisionByZero \<notin> set events0 \<longrightarrow> Inl DivisionByZero \<notin> set events')
   \<and> (\<forall>r d' events. FullIndexOperation_start e f forcedEncoding t d = Some (r, d', events)
          \<longrightarrow> Inl DivisionByZero \<notin> set events)
   \<and> (\<forall>r d' events. PartialIndexOperation_start e f t d = Some (r, d', events)
          \<longrightarrow> Inl DivisionByZero \<notin> set events)"
proof (intro conjI allI impI)
  show "progress state \<noteq> Inl DivisionByZero"
    by (rule progress_total)
next
  assume "file_size state = 0"
  then show "progress state = Inr 100"
    by (simp add: progress_without_size)
next
  fix state' d' events'
  assume "blockParser e (state, d, events0) blockData = Some (state', d', events')"
    and "Inl DivisionByZero \<notin> set events0"
  then show "Inl DivisionByZero \<notin> set events'"
    by (rule blockParser_events)
next
  fix r d' events
  assume "FullIndexOperation_start e f forcedEncoding t d = Some (r, d', events)"
  then obtain k where
    "doIndex e f t 0 0 (forceEncoding (clear d) forcedEncoding) [Inr 0] = Some (d', events, k)"
    by (auto simp: FullIndexOperation_start_def split: option.splits)
  from doIndex_events [OF this] show "Inl DivisionByZero \<notin> set events" by simp
next
  fix r d' events
  assume "PartialIndexOperation_start e f t d = Some (r, d', events)"
  then obtain k where
    "doIndex e f t 0 (getSize d) d [Inr 0] = Some (d', events, k)"
    by (auto simp: PartialIndexOperation_start_def Let_def split: option.splits)
  from doIndex_events [OF this] show "Inl DivisionByZero \<notin> set events" by simp
qed

text \<open>
  The theorem at a state of the pass in which \<open>state.file_size\<close> is 0, at a call of the
  block parser in that state on the block \<open>a\<close>, and at the full index of the file
  \<open>a\<newline>b\<close>.
\<close>

definition state_without_size :: "sample_codec IndexingState" where
  "state_without_size =
     \<lparr>encodingParams = \<lparr>lineFeedWidth = 1, beforeCrOffset = 0\<rparr>, pos = 0,
      max_length = 0, additional_spaces = 0, line_end = 0, file_size = 0,
      st_encodingGuess = None, fileTextCodec = None\<rparr>"

lemma blockParser_without_size:
  "blockParser sample_env (state_without_size, empty_index, [Inr 0]) (0, [CHR ''a''])
     = Some (state_without_size\<lparr>st_encodingGuess := Some Latin1, fileTextCodec := Some Latin1\<rparr>,
             \<lparr>linePosition = \<lparr>array = [], fakeFinalLF = False\<rparr>,
              maxLength = 0,
              indexedHash = \<lparr>hash = CHR ''a'' # take 15 zeros16, size' = 1\<rparr>,
              indexHash = [CHR ''a''],
              encodingGuess = Some Latin1,
              encodingForced = None\<rparr>,
             [Inr 0, Inr 100])"
  by (simp add: run_defs state_without_size_def)

theorem progress_never_divides_by_zero_witness:
  "file_size state_without_size = 0
   \<and> progress state_without_size = Inr 100
   \<and> (\<exists>state' d'.
        blockParser sample_env (state_without_size, empty_index, [Inr 0]) (0, [CHR ''a''])
          = Some (state', d', [Inr 0, Inr 100]))
   \<and> Inl DivisionByZero \<notin> set [Inr 0, Inr (100 :: int)]
   \<and> FullIndexOperation_start sample_env (readable_file file_a_b) None None empty_index
       = Some (Completion True, index_a_b, [Inr 0, Inr 66])
   \<and> Inl DivisionByZero \<notin> set [Inr 0, Inr (66 :: int)]"
proof -
  have size: "file_size state_without_size = 0"
    by (simp add: state_without_size_def)
  note block = blockParser_without_size
  note run = FullIndex_file_a_b [of empty_index]
  from progress_never_divides_by_zero
         [of state_without_size sample_env empty_index "[Inr 0]" "(0, [CHR ''a''])"
            "readable_file file_a_b" None None]
  have at_zero: "file_size state_without_size = 0 \<longrightarrow> progress state_without_size = Inr 100"
    and parser: "\<forall>state' d' events'.
      blockParser sample_env (state_without_size, empty_index, [Inr 0]) (0, [CHR ''a''])
        = Some (state', d', events')
      \<longrightarrow> Inl DivisionByZero \<notin> set [Inr (0 :: int)] \<longrightarrow> Inl DivisionByZero \<notin> set events'"
    and events: "\<forall>r d' events.
      FullIndexOperation_start sample_env (readable_file file_a_b) None None empty_index
        = Some (r, d', events) \<longrightarrow> Inl DivisionByZero \<notin> set events"
    by blast+
  from at_zero size have v: "progress state_without_size = Inr 100" by blast
  from parser block have p: "Inl DivisionByZero \<notin> set [Inr 0, Inr (100 :: int)]"
    by simp
  from events run have r: "Inl DivisionByZero \<notin> set [Inr 0, Inr (66 :: int)]"
    by blast
  from block have "\<exists>state' d'.
        blockParser sample_env (state_without_size, empty_index, [Inr 0]) (0, [CHR ''a''])
          = Some (state', d', [Inr 0, Inr 100])"
    by blast
  with size v p r run show ?thesis by blast
qed

section \<open>The scan of a file in a single-byte encoding\<close>

text \<open>
  \<open>lf_positions off bytes\<close>: for every line feed of \<open>bytes\<close>, in order, the offset of the
  byte behind it, \<open>off\<close> being the offset of the first byte of \<open>bytes\<close>. For an encoding
  with a line feed one byte wide and no offset (\<open>single_byte\<close>) these are the line
  positions that the scan of \<open>bytes\<close> appends.
\<close>

fun lf_positions :: "int \<Rightarrow> string \<Rightarrow> int list" where
  "lf_positions off [] = []"
| "lf_positions off (c # cs) = (if c = LF then [off + 1] else []) @ lf_positions (off + 1) cs"

definition single_byte :: "'c env \<Rightarrow> bool" where
  "single_byte e =
     (defaultEncodingParameters e = \<lparr>lineFeedWidth = 1, beforeCrOffset = 0\<rparr>
      \<and> (\<forall>codec. encodingParameters e codec = \<lparr>lineFeedWidth = 1, beforeCrOffset = 0\<rparr>))"

definition same_pass :: "'c IndexingState \<Rightarrow> 'c IndexingState \<Rightarrow> bool" where
  "same_pass s s' =
     (encodingParams s' = encodingParams s \<and> file_size s' = file_size s
      \<and> st_encodingGuess s' = st_encodingGuess s \<and> fileTextCodec s' = fileTextCodec s)"

lemma lf_positions_append:
  "lf_positions off (xs @ ys) = lf_positions off xs @ lf_positions (off + int (length xs)) ys"
  by (induction xs arbitrary: off) (auto simp: algebra_simps)

lemma lf_positions_no_LF: "LF \<notin> set xs \<Longrightarrow> lf_positions off xs = []"
  by (induction xs arbitrary: off) auto


lemma lf_positions_bounds:
  "p \<in> set (lf_positions off xs) \<Longrightarrow> off < p \<and> p \<le> off + int (length xs)"
proof (induction xs arbitrary: off)
  case Nil
  then show ?case by simp
next
  case (Cons c cs)
  then show ?case by (fastforce split: if_splits)
qed

lemma last_lf_positions_le:
  "pos0 \<le> off + int (length xs) \<Longrightarrow> last (pos0 # lf_positions off xs) \<le> off + int (length xs)"
  using lf_positions_bounds [of "last (lf_positions off xs)" off xs]
  by (cases "lf_positions off xs = []") auto

lemma expandTabs_only_spaces:
  "\<exists>a. expandTabs block block_beginning state tab_search_start line_size
        = state\<lparr>additional_spaces := a\<rparr>"
proof (induction block block_beginning state tab_search_start line_size rule: expandTabs.induct)
  case (1 block block_beginning state tab_search_start line_size)
  show ?case
  proof (cases "memchr block tab_search_start TAB line_size")
    case None
    then have "expandTabs block block_beginning state tab_search_start line_size = state"
      by (subst expandTabs.simps) simp
    then have "expandTabs block block_beginning state tab_search_start line_size
        = state\<lparr>additional_spaces := additional_spaces state\<rparr>" by simp
    then show ?thesis by blast
  next
    case (Some next_tab)
    define state' where "state' = state\<lparr>additional_spaces :=
                 additional_spaces state
                 + (tabStop
                    - (static_cast_int ((block_beginning - pos state)
                         + (int next_tab - beforeCrOffset (encodingParams state))
                         + additional_spaces state) smod tabStop)
                    - 1)\<rparr>"
    define line_size' where "line_size' = line_size - (int next_tab - int tab_search_start)"
    show ?thesis
    proof (cases "line_size' > 0")
      case True
      from "1.IH" [OF Some refl state'_def refl line_size'_def True]
      obtain a where "expandTabs block block_beginning state' (next_tab + 1) line_size'
          = state'\<lparr>additional_spaces := a\<rparr>" by blast
      moreover have "expandTabs block block_beginning state tab_search_start line_size
          = expandTabs block block_beginning state' (next_tab + 1) line_size'"
        using Some True
        by (subst expandTabs.simps) (simp add: Let_def state'_def line_size'_def)
      ultimately have "expandTabs block block_beginning state tab_search_start line_size
          = state\<lparr>additional_spaces := a\<rparr>" by (simp add: state'_def)
      then show ?thesis by blast
    next
      case False
      have "expandTabs block block_beginning state tab_search_start line_size = state'"
        using Some False
        by (subst expandTabs.simps) (simp add: Let_def state'_def line_size'_def)
      then show ?thesis unfolding state'_def by blast
    qed
  qed
qed


lemma memchr_None:
  assumes "memchr mem start c n = None" and "int (length mem) - int start \<le> n"
  shows "c \<notin> set (drop start mem)"
proof -
  from assms(2) have "take (nat n) (drop start mem) = drop start mem"
    by simp
  with assms(1) show ?thesis
    by (auto simp: memchr_def Let_def split: if_splits)
qed

lemma drop_split_at:
  assumes "q \<le> i" and "i < length xs"
  shows "drop q xs = take (i - q) (drop q xs) @ xs ! i # drop (Suc i) xs"
proof -
  have "i - q < length (drop q xs)" using assms by simp
  from id_take_nth_drop [OF this]
  have "drop q xs = take (i - q) (drop q xs) @ drop q xs ! (i - q) # drop (Suc (i - q)) (drop q xs)" .
  moreover have "drop q xs ! (i - q) = xs ! i" using assms by simp
  moreover have "drop (Suc (i - q)) (drop q xs) = drop (Suc i) xs" using assms by simp
  ultimately show ?thesis by simp
qed

lemma lf_positions_first:
  assumes found: "memchr block q LF n = Some i"
  shows "lf_positions (bb + int q) (drop q block)
         = (bb + int i + 1) # lf_positions (bb + int i + 1) (drop (Suc i) block)"
proof -
  from memchr_Some [OF found] have qi: "q \<le> i" and il: "i < length block"
    and at: "block ! i = LF" and before: "\<And>j. q \<le> j \<Longrightarrow> j < i \<Longrightarrow> block ! j \<noteq> LF"
    by auto
  let ?pre = "take (i - q) (drop q block)"
  have len_pre: "length ?pre = i - q" using qi il by simp
  have no_lf: "LF \<notin> set ?pre"
  proof
    assume "LF \<in> set ?pre"
    then obtain j where j: "j < length ?pre" and eq: "?pre ! j = LF"
      by (auto simp: in_set_conv_nth)
    from j len_pre have jlt: "j < i - q" by simp
    then have "?pre ! j = block ! (q + j)" using il by simp
    with eq before [of "q + j"] jlt show False by simp
  qed
  have "drop q block = ?pre @ LF # drop (Suc i) block"
    using drop_split_at [OF qi il] at by simp
  then have "lf_positions (bb + int q) (drop q block)
      = lf_positions (bb + int q) (?pre @ LF # drop (Suc i) block)" by simp
  also have "\<dots> = lf_positions (bb + int q + int (i - q)) (LF # drop (Suc i) block)"
    using len_pre by (simp add: lf_positions_append lf_positions_no_LF [OF no_lf])
  also have "bb + int q + int (i - q) = bb + int i" using qi by simp
  finally show ?thesis by simp
qed

lemma array_eq: "\<not> fakeFinalLF lp \<Longrightarrow> lp = \<lparr>array = array lp, fakeFinalLF = False\<rparr>"
  by (cases lp) simp

lemma parseLoop_single_byte:
  assumes len: "length block < 2147483648"
  shows "encodingParams st = \<lparr>lineFeedWidth = 1, beforeCrOffset = 0\<rparr>
    \<Longrightarrow> - 2147483648 \<le> pos st - bb \<Longrightarrow> pos st - bb \<le> int (length block)
    \<Longrightarrow> \<not> fakeFinalLF lp
    \<Longrightarrow> \<exists>st'. parseLoop block bb st lp
            = Some (st', \<lparr>array = array lp
                              @ lf_positions (bb + int (nat (pos st - bb)))
                                  (drop (nat (pos st - bb)) block),
                          fakeFinalLF = False\<rparr>)
          \<and> same_pass st st'
          \<and> pos st' = last (pos st # lf_positions (bb + int (nat (pos st - bb)))
                                        (drop (nat (pos st - bb)) block))"
proof (induction "length block - nat (pos st - bb)" arbitrary: st lp rule: less_induct)
  case less
  define q where "q = nat (pos st - bb)"
  have cast: "static_cast_int (pos st - bb) = pos st - bb"
    using less.prems len by (intro static_cast_int_id) auto
  have pwb: "max (pos st - bb) 0 = int q" by (simp add: q_def)
  show ?case
  proof (cases "q < length block")
    case False
    then have "parseLoop block bb st lp = Some (st, lp)"
      by (subst parseLoop.simps) (simp add: Let_def cast pwb)
    moreover from False have "drop q block = []" by simp
    ultimately show ?thesis
      using array_eq [OF less.prems(4)] by (simp add: q_def [symmetric] same_pass_def)
  next
    case True
    then have size_pos: "int (length block) - int q > 0" by simp
    show ?thesis
    proof (cases "memchr block q LF (int (length block) - int q)")
      case None
      from expandTabs_only_spaces [of block bb st q "int (length block) - int q"]
      obtain a where tabs: "expandTabs block bb st q (int (length block) - int q)
          = st\<lparr>additional_spaces := a\<rparr>" by blast
      have "parseLoop block bb st lp = Some (st\<lparr>additional_spaces := a\<rparr>, lp)"
        using None size_pos tabs
        by (subst parseLoop.simps) (simp add: Let_def cast pwb)
      moreover have "lf_positions (bb + int q) (drop q block) = []"
        using memchr_None [OF None] by (simp add: lf_positions_no_LF)
      ultimately show ?thesis
        using array_eq [OF less.prems(4)] by (simp add: q_def [symmetric] same_pass_def)
    next
      case (Some i)
      from memchr_Some [OF Some] have qi: "q \<le> i" and il: "i < length block" by auto
      from expandTabs_only_spaces [of block bb st q "int i - int q"]
      obtain a where tabs: "expandTabs block bb st q (int i - int q)
          = st\<lparr>additional_spaces := a\<rparr>" by blast
      define len1 where "len1 = int i + bb - pos st + a"
      define st2 where "st2 = st\<lparr>line_end := int i + bb,
          max_length := (if len1 > max_length st then len1 else max_length st),
          pos := int i + bb + 1, additional_spaces := 0\<rparr>"
      define lp2 where "lp2 = \<lparr>array = array lp @ [bb + int i + 1], fakeFinalLF = False\<rparr>"
      have step: "parseLoop block bb st lp = parseLoop block bb st2 lp2"
        using Some size_pos tabs less.prems(1,4)
        by (subst parseLoop.simps)
           (simp add: Let_def cast pwb st2_def lp2_def len1_def append_def algebra_simps)
      have pos2: "pos st2 - bb = int (Suc i)" by (simp add: st2_def)
      have "length block - nat (pos st2 - bb) < length block - nat (pos st - bb)"
        using qi il by (simp add: pos2 q_def [symmetric])
      moreover have "encodingParams st2 = \<lparr>lineFeedWidth = 1, beforeCrOffset = 0\<rparr>"
        using less.prems(1) by (simp add: st2_def)
      moreover have "- 2147483648 \<le> pos st2 - bb" by (simp add: pos2)
      moreover have "pos st2 - bb \<le> int (length block)" using il by (simp add: pos2)
      moreover have "\<not> fakeFinalLF lp2" by (simp add: lp2_def)
      ultimately obtain st' where
        res: "parseLoop block bb st2 lp2
          = Some (st', \<lparr>array = array lp2
                              @ lf_positions (bb + int (nat (pos st2 - bb)))
                                  (drop (nat (pos st2 - bb)) block),
                          fakeFinalLF = False\<rparr>)"
        and same: "same_pass st2 st'"
        and last: "pos st' = last (pos st2 # lf_positions (bb + int (nat (pos st2 - bb)))
                                        (drop (nat (pos st2 - bb)) block))"
        using less.hyps [of st2 lp2] by blast
      have first: "lf_positions (bb + int q) (drop q block)
         = (bb + int i + 1) # lf_positions (bb + int i + 1) (drop (Suc i) block)"
        by (rule lf_positions_first [OF Some])
      have n2: "nat (pos st2 - bb) = Suc i" by (simp add: pos2)
      have o2: "bb + int (Suc i) = bb + int i + 1" by simp
      have "same_pass st st'"
        using same by (simp add: same_pass_def st2_def)
      moreover have "pos st2 = bb + int i + 1" by (simp add: st2_def)
      ultimately show ?thesis
        using step res [unfolded n2 o2] last [unfolded n2 o2] first
        by (simp add: q_def [symmetric] lp2_def)
    qed
  qed
qed

text \<open>
  The scan casts \<^verbatim>\<open>state.pos - block_beginning\<close> to \<^verbatim>\<open>int\<close>. When the line that is open at
  the start of a block began more than \<open>2^31\<close> bytes before the block, the difference
  wraps to a positive \<^verbatim>\<open>int\<close>, the search starts behind the start of the block, and a
  line feed in the block is not seen. Here the block starts at \<open>2^31 + 2^20\<close>, the start
  of the 2050th block of a file, and the open line at 0: the search starts behind the
  end of the block, and the scan returns at once.
\<close>

lemma parseLoop_line_over_2GiB:
  "pos st = 0 \<Longrightarrow> length block \<le> 1048576
   \<Longrightarrow> parseLoop block 2148532224 st lp = Some (st, lp)"
  by (subst parseLoop.simps) (simp add: static_cast_int_def Let_def)

text \<open>
  \<open>lines_fit n bytes\<close>: every byte of \<open>bytes\<close> lies at most \<open>2^31\<close> bytes behind the first
  byte of its line, where the line of the first byte of \<open>bytes\<close> began \<open>n\<close> bytes before
  it. So \<open>lines_fit 0 F\<close> says that no line of the file \<open>F\<close>, its line feed included, is
  longer than \<open>2^31 + 1\<close> bytes; the size of \<open>F\<close> is not bounded.
\<close>

fun lines_fit :: "nat \<Rightarrow> string \<Rightarrow> bool" where
  "lines_fit n [] = True"
| "lines_fit n (c # cs) = (n \<le> 2147483648 \<and> lines_fit (if c = LF then 0 else Suc n) cs)"

lemma lines_fit_prefix: "lines_fit n (xs @ ys) \<Longrightarrow> lines_fit n xs"
  by (induction xs arbitrary: n) auto

lemma lines_fit_first: "lines_fit n xs \<Longrightarrow> xs \<noteq> [] \<Longrightarrow> n \<le> 2147483648"
  by (cases xs) auto

lemma lines_fit_mono: "lines_fit m xs \<Longrightarrow> n \<le> m \<Longrightarrow> lines_fit n xs"
proof (induction xs arbitrary: m n)
  case Nil
  then show ?case by simp
next
  case (Cons c cs)
  from Cons.prems have "n \<le> 2147483648" by simp
  moreover have "lines_fit (if c = LF then 0 else Suc n) cs"
  proof (cases "c = LF")
    case True
    with Cons.prems show ?thesis by simp
  next
    case False
    with Cons.prems have "lines_fit (Suc m) cs" by simp
    from Cons.IH [OF this, of "Suc n"] Cons.prems(2) False show ?thesis by simp
  qed
  ultimately show ?case by simp
qed

lemma lines_fit_after:
  "lines_fit n (xs @ ys) \<Longrightarrow> q \<le> bb \<Longrightarrow> n = nat (bb - q)
   \<Longrightarrow> lines_fit (nat (bb + int (length xs) - last (q # lf_positions bb xs))) ys"
proof (induction xs arbitrary: n q bb)
  case Nil
  then show ?case by simp
next
  case (Cons c cs)
  show ?case
  proof (cases "c = LF")
    case True
    with Cons.prems have "lines_fit 0 (cs @ ys)" by simp
    from Cons.IH [OF this, of "bb + 1" "bb + 1"]
    have "lines_fit (nat (bb + 1 + int (length cs)
             - last ((bb + 1) # lf_positions (bb + 1) cs))) ys"
      by simp
    moreover have "last (q # lf_positions bb (c # cs))
        = last ((bb + 1) # lf_positions (bb + 1) cs)"
      using True by simp
    ultimately show ?thesis by (simp add: algebra_simps)
  next
    case False
    with Cons.prems have "lines_fit (Suc n) (cs @ ys)" by simp
    moreover have "q \<le> bb + 1" "Suc n = nat (bb + 1 - q)"
      using Cons.prems(2,3) by simp_all
    ultimately have "lines_fit (nat (bb + 1 + int (length cs)
             - last (q # lf_positions (bb + 1) cs))) ys"
      by (rule Cons.IH)
    moreover have "last (q # lf_positions bb (c # cs)) = last (q # lf_positions (bb + 1) cs)"
      using False by simp
    ultimately show ?thesis by (simp add: algebra_simps)
  qed
qed

lemma lines_fit_suffix: "lines_fit n (xs @ ys) \<Longrightarrow> lines_fit 0 ys"
  using lines_fit_after [of n xs ys 0 "int n"] lines_fit_mono [of _ ys 0] by simp

text \<open>A file of at most \<open>2^31 + 1\<close> bytes has no longer line.\<close>

lemma lines_fit_short: "n + length xs \<le> 2147483649 \<Longrightarrow> lines_fit n xs"
  by (induction xs arbitrary: n) auto

subsection \<open>One block\<close>

abbreviation single_byte_parameters :: EncodingParameters where
  "single_byte_parameters \<equiv> \<lparr>lineFeedWidth = 1, beforeCrOffset = 0\<rparr>"

text \<open>The guess of the pass once a block has been seen.\<close>

definition pass_guess :: "'c env \<Rightarrow> 'c option \<Rightarrow> string \<Rightarrow> 'c" where
  "pass_guess e guess block = (case guess of None \<Rightarrow> detectEncoding e block | Some g \<Rightarrow> g)"

lemma guessEncoding_single_byte:
  assumes "single_byte e" and "encodingParams st = single_byte_parameters"
  shows "encodingParams (guessEncoding e d block st) = single_byte_parameters"
    and "pos (guessEncoding e d block st) = pos st"
    and "file_size (guessEncoding e d block st) = file_size st"
    and "st_encodingGuess (guessEncoding e d block st)
           = Some (pass_guess e (st_encodingGuess st) block)"
proof -
  from assms(1) have enc: "\<And>codec. encodingParameters e codec = single_byte_parameters"
    by (simp add: single_byte_def)
  show "encodingParams (guessEncoding e d block st) = single_byte_parameters"
    using assms(2) by (simp add: guessEncoding_def Let_def enc)
  show "pos (guessEncoding e d block st) = pos st"
    by (simp add: guessEncoding_def Let_def)
  show "file_size (guessEncoding e d block st) = file_size st"
    by (simp add: guessEncoding_def Let_def)
  show "st_encodingGuess (guessEncoding e d block st)
           = Some (pass_guess e (st_encodingGuess st) block)"
    by (simp add: guessEncoding_def Let_def pass_guess_def)
qed

text \<open>
  The index after the bytes \<open>bytes\<close>, which start at offset \<open>p\<close>, have been committed to
  the index \<open>d\<close> in one or more blocks: \<open>g\<close> is the guess of the pass and \<open>m\<close> the maximal
  length.
\<close>

definition strip_fake :: "LinePositionArray \<Rightarrow> int list" where
  "strip_fake a = (if fakeFinalLF a then butlast (array a) else array a)"

definition committed ::
  "'c env \<Rightarrow> 'c IndexingData \<Rightarrow> int \<Rightarrow> string \<Rightarrow> 'c \<Rightarrow> int \<Rightarrow> 'c IndexingData" where
  "committed e d p bytes g m =
     \<lparr>linePosition = \<lparr>array = strip_fake (linePosition d) @ lf_positions p bytes,
                       fakeFinalLF = False\<rparr>,
      maxLength = m,
      indexedHash = \<lparr>hash = md5 e (indexHash d @ bytes),
                      size' = size' (indexedHash d) + int (length bytes)\<rparr>,
      indexHash = indexHash d @ bytes,
      encodingGuess = Some g,
      encodingForced = encodingForced d\<rparr>"

lemma committed_committed:
  "committed e (committed e d p xs g m) (p + int (length xs)) ys g' m'
   = committed e d p (xs @ ys) g' m'"
  by (simp add: committed_def strip_fake_def lf_positions_append)

lemma pos_le_last_lf_positions:
  "pos0 \<le> off \<Longrightarrow> pos0 \<le> last (pos0 # lf_positions off xs)"
  using lf_positions_bounds [of "last (lf_positions off xs)" off xs]
  by (cases "lf_positions off xs = []") auto

lemma sizeChunk_less: "int sizeChunk < 2147483648"
  by (simp add: sizeChunk_def)

lemma blockParser_single_byte:
  assumes sb: "single_byte e" and params: "encodingParams st = single_byte_parameters"
    and block: "block \<noteq> []" "length block \<le> sizeChunk"
    and before: "pos st \<le> bb" "bb - pos st \<le> 2147483648"
  shows "\<exists>st' m. blockParser e (st, d, events) (bb, block)
             = Some (st', committed e d bb block (pass_guess e (st_encodingGuess st) block) m,
                     events @ [progress st'])
          \<and> encodingParams st' = single_byte_parameters
          \<and> file_size st' = file_size st
          \<and> st_encodingGuess st' = Some (pass_guess e (st_encodingGuess st) block)
          \<and> pos st' = last (pos st # lf_positions bb block)"
proof -
  define st1 where "st1 = (guessEncoding e d block st)\<lparr>max_length := 0\<rparr>"
  note g = guessEncoding_single_byte [OF sb params, of d block]
  have len: "length block < 2147483648"
    using block(2) sizeChunk_less by linarith
  have p1: "encodingParams st1 = single_byte_parameters" "pos st1 = pos st"
    by (simp_all add: st1_def g)
  have nat0: "nat (pos st1 - bb) = 0" using before by (simp add: p1)
  from parseLoop_single_byte [OF len, of st1 bb empty_array] p1 before
  obtain st' where
    loop: "parseLoop block bb st1 empty_array
             = Some (st', \<lparr>array = lf_positions bb block, fakeFinalLF = False\<rparr>)"
    and same: "same_pass st1 st'"
    and last: "pos st' = last (pos st # lf_positions bb block)"
    by (auto simp: nat0 empty_array_def)
  have fields: "encodingParams st' = single_byte_parameters" "file_size st' = file_size st"
    "st_encodingGuess st' = Some (pass_guess e (st_encodingGuess st) block)"
    using same by (simp_all add: same_pass_def st1_def g)
  have "parseDataBlock bb block (guessEncoding e d block st)
      = Some (st', \<lparr>array = lf_positions bb block, fakeFinalLF = False\<rparr>)"
    using loop by (simp add: parseDataBlock_def st1_def)
  then have "blockParser e (st, d, events) (bb, block)
      = Some (st', committed e d bb block (pass_guess e (st_encodingGuess st) block)
                     (max (maxLength d) (max_length st')),
              events @ [progress st'])"
    using block(1) fields(3)
    by (simp add: blockParser_def Let_def addAll_def committed_def append_list_def
        strip_fake_def)
  then show ?thesis using fields last by blast
qed

subsection \<open>A sequence of blocks\<close>

text \<open>Blocks that follow one another from offset \<open>p\<close> on, as the reader sends them.\<close>

fun contiguous :: "int \<Rightarrow> (int \<times> string) list \<Rightarrow> bool" where
  "contiguous p [] = True"
| "contiguous p (blockData # blocks) =
     (fst blockData = p \<and> snd blockData \<noteq> [] \<and> length (snd blockData) \<le> sizeChunk
      \<and> contiguous (p + int (length (snd blockData))) blocks)"

definition concat_blocks :: "(int \<times> string) list \<Rightarrow> string" where
  "concat_blocks blocks = concat (map snd blocks)"

lemma runParser_single_byte:
  assumes sb: "single_byte e"
  shows "contiguous p blocks \<Longrightarrow> blocks \<noteq> []
    \<Longrightarrow> encodingParams st = single_byte_parameters
    \<Longrightarrow> pos st \<le> p \<Longrightarrow> lines_fit (nat (p - pos st)) (concat_blocks blocks)
    \<Longrightarrow> \<exists>st' m events'. runParser e (st, d, events) blocks
             = Some (st', committed e d p (concat_blocks blocks)
                            (pass_guess e (st_encodingGuess st) (snd (hd blocks))) m,
                     events')
          \<and> file_size st' = file_size st
          \<and> st_encodingGuess st'
              = Some (pass_guess e (st_encodingGuess st) (snd (hd blocks)))
          \<and> pos st' = last (pos st # lf_positions p (concat_blocks blocks))"
proof (induction blocks arbitrary: p st d events)
  case Nil
  then show ?case by simp
next
  case (Cons blockData blocks)
  obtain bb block where bd: "blockData = (bb, block)" by (cases blockData)
  from Cons.prems(1) have bb: "bb = p" and block: "block \<noteq> []" "length block \<le> sizeChunk"
    and rest: "contiguous (p + int (length block)) blocks"
    by (simp_all add: bd)
  let ?g = "pass_guess e (st_encodingGuess st) block"
  have cat: "concat_blocks (blockData # blocks) = block @ concat_blocks blocks"
    by (simp add: concat_blocks_def bd)
  have far: "p - pos st \<le> 2147483648"
    using lines_fit_first [OF Cons.prems(5)] block(1) Cons.prems(4) by (simp add: cat)
  from blockParser_single_byte [OF sb Cons.prems(3) block, of p d events] Cons.prems(4) far
  obtain st1 m1 where
    step: "blockParser e (st, d, events) (p, block)
             = Some (st1, committed e d p block ?g m1, events @ [progress st1])"
    and st1: "encodingParams st1 = single_byte_parameters" "file_size st1 = file_size st"
      "st_encodingGuess st1 = Some ?g" "pos st1 = last (pos st # lf_positions p block)"
    by blast
  show ?case
  proof (cases "blocks = []")
    case True
    then show ?thesis
      using step st1 by (auto simp: bd bb concat_blocks_def)
  next
    case False
    have le1: "pos st1 \<le> p + int (length block)"
      using last_lf_positions_le [of "pos st" p block] Cons.prems(4) by (simp add: st1)
    have ge1: "pos st \<le> pos st1"
      using pos_le_last_lf_positions [OF Cons.prems(4), of block] by (simp add: st1)
    have far1: "lines_fit (nat (p + int (length block) - pos st1)) (concat_blocks blocks)"
      using lines_fit_after [OF Cons.prems(5) [unfolded cat] Cons.prems(4) refl]
      by (simp add: st1)
    from Cons.IH [OF rest False st1(1) le1 far1, of "committed e d p block ?g m1"
        "events @ [progress st1]"]
    obtain st' m events' where
      run: "runParser e (st1, committed e d p block ?g m1, events @ [progress st1]) blocks
          = Some (st', committed e (committed e d p block ?g m1) (p + int (length block))
                         (concat_blocks blocks)
                         (pass_guess e (st_encodingGuess st1) (snd (hd blocks))) m,
                  events')"
      and st': "file_size st' = file_size st1"
        "st_encodingGuess st' = Some (pass_guess e (st_encodingGuess st1) (snd (hd blocks)))"
        "pos st' = last (pos st1 # lf_positions (p + int (length block)) (concat_blocks blocks))"
      by blast
    have guess: "pass_guess e (st_encodingGuess st1) (snd (hd blocks)) = ?g"
      by (simp add: st1 pass_guess_def)
    have pos': "pos st' = last (pos st # lf_positions p (block @ concat_blocks blocks))"
      using st'(3) st1(4) by (simp add: lf_positions_append)
    have "runParser e (st, d, events) (blockData # blocks)
        = Some (st', committed e d p (concat_blocks (blockData # blocks)) ?g m, events')"
      using step run [unfolded guess committed_committed]
      by (simp add: bd bb concat_blocks_def)
    moreover have "file_size st' = file_size st"
      using st'(1) st1(2) by simp
    moreover have "st_encodingGuess st' = Some ?g"
      using st'(2) by (simp only: guess)
    moreover have "pos st' = last (pos st # lf_positions p (concat_blocks (blockData # blocks)))"
      using pos' by (simp only: cat)
    ultimately show ?thesis
      by (simp only: bd list.sel snd_conv) blast
  qed
qed

subsection \<open>The blocks that the reader sends\<close>

text \<open>
  \<open>blocks_of content fpos\<close>: the blocks of a reader that no interrupt stops. A reader
  that sees the flag set at read number \<open>j\<close> has sent the first \<open>j - k\<close> of them when its
  first read has the number \<open>k\<close>.
\<close>

definition blocks_of :: "string \<Rightarrow> nat \<Rightarrow> (int \<times> string) list" where
  "blocks_of content fpos = fst (blockReader None content fpos 0)"

definition sent_blocks :: "nat option \<Rightarrow> nat \<Rightarrow> (int \<times> string) list \<Rightarrow> (int \<times> string) list" where
  "sent_blocks t k blocks = (case t of None \<Rightarrow> blocks | Some j \<Rightarrow> take (j - k) blocks)"

definition next_block :: "string \<Rightarrow> nat \<Rightarrow> string" where
  "next_block content fpos = take sizeChunk (drop fpos content)"

lemma next_block_length:
  "fpos < length content \<Longrightarrow> 0 < length (next_block content fpos)"
  "length (next_block content fpos) \<le> sizeChunk"
  by (simp_all add: next_block_def sizeChunk_def)

lemma next_block_append:
  "next_block content fpos @ drop (fpos + length (next_block content fpos)) content
   = drop fpos content"
proof (cases "sizeChunk \<le> length content - fpos")
  case True
  then have "length (next_block content fpos) = sizeChunk"
    by (simp add: next_block_def)
  then have "drop (fpos + length (next_block content fpos)) content
      = drop sizeChunk (drop fpos content)"
    by (simp add: add.commute)
  then show ?thesis
    by (simp only: next_block_def append_take_drop_id)
next
  case False
  then have "next_block content fpos = drop fpos content"
    by (simp add: next_block_def)
  then show ?thesis by simp
qed

lemma blockReader_cases:
  "blockReader t content fpos k =
     (if interruptRequest t k \<or> \<not> fpos < length content then ([], Suc k)
      else ((int fpos, next_block content fpos)
              # fst (blockReader t content (fpos + length (next_block content fpos)) (Suc k)),
            snd (blockReader t content (fpos + length (next_block content fpos)) (Suc k))))"
  unfolding next_block_def
  by (subst blockReader.simps) (simp only: Let_def split: if_split, blast)

lemma blockReader_None_fst:
  "fst (blockReader None content fpos k) = fst (blockReader None content fpos 0)"
proof (induction "length content - fpos" arbitrary: fpos k rule: less_induct)
  case less
  show ?case
  proof (cases "fpos < length content")
    case True
    let ?next = "fpos + length (next_block content fpos)"
    have "length content - ?next < length content - fpos"
      using True next_block_length(1) [OF True] by linarith
    from less [OF this, of "Suc k"] less [OF this, of "Suc 0"]
    have "fst (blockReader None content ?next (Suc k))
        = fst (blockReader None content ?next (Suc 0))"
      by simp
    then show ?thesis
      using True
      by (subst blockReader_cases, subst (2) blockReader_cases)
         (simp add: interruptRequest_def)
  next
    case False
    then show ?thesis
      by (subst blockReader_cases, subst (2) blockReader_cases) simp
  qed
qed

lemma blocks_of_unfold:
  "blocks_of content fpos =
     (if fpos < length content
      then (int fpos, next_block content fpos)
             # blocks_of content (fpos + length (next_block content fpos))
      else [])"
  unfolding blocks_of_def
  by (subst blockReader_cases)
     (simp add: interruptRequest_def
        blockReader_None_fst [where fpos = "fpos + length (next_block content fpos)"
          and k = "Suc 0"])

lemma blocks_of_contiguous:
  "contiguous (int fpos) (blocks_of content fpos)
   \<and> concat_blocks (blocks_of content fpos) = drop fpos content"
proof (induction "length content - fpos" arbitrary: fpos rule: less_induct)
  case less
  show ?case
  proof (cases "fpos < length content")
    case True
    let ?next = "fpos + length (next_block content fpos)"
    have "length content - ?next < length content - fpos"
      using True next_block_length(1) [OF True] by linarith
    from less [OF this] have IH: "contiguous (int ?next) (blocks_of content ?next)"
      "concat_blocks (blocks_of content ?next) = drop ?next content"
      by simp_all
    have unfold: "blocks_of content fpos
        = (int fpos, next_block content fpos) # blocks_of content ?next"
      using True by (subst blocks_of_unfold) simp
    have "contiguous (int fpos) (blocks_of content fpos)"
      using IH(1) next_block_length(1) [OF True] next_block_length(2) [of content fpos]
      by (simp add: unfold)
    moreover have "concat_blocks (blocks_of content fpos) = drop fpos content"
      using IH(2) next_block_append [of content fpos]
      by (simp add: unfold concat_blocks_def)
    ultimately show ?thesis ..
  next
    case False
    then have "blocks_of content fpos = []" by (subst blocks_of_unfold) simp
    with False show ?thesis by (simp add: concat_blocks_def)
  qed
qed

lemma blockReader_sent:
  "blockReader t content fpos k
   = (sent_blocks t k (blocks_of content fpos),
      Suc (k + length (sent_blocks t k (blocks_of content fpos))))"
proof (induction "length content - fpos" arbitrary: fpos k rule: less_induct)
  case less
  show ?case
  proof (cases "interruptRequest t k")
    case True
    then obtain j where "t = Some j" "j \<le> k"
      by (auto simp: interruptRequest_def split: option.splits)
    with True show ?thesis
      by (subst blockReader_cases) (simp add: sent_blocks_def)
  next
    case not_set: False
    show ?thesis
    proof (cases "fpos < length content")
      case False
      then have "blocks_of content fpos = []" by (subst blocks_of_unfold) simp
      with False show ?thesis
        by (subst blockReader_cases) (simp add: sent_blocks_def split: option.splits)
    next
      case True
      let ?block = "next_block content fpos"
      let ?next = "fpos + length ?block"
      have "length content - ?next < length content - fpos"
        using True next_block_length(1) [OF True] by linarith
      from less [OF this, of "Suc k"]
      have IH: "blockReader t content ?next (Suc k)
        = (sent_blocks t (Suc k) (blocks_of content ?next),
           Suc (Suc k + length (sent_blocks t (Suc k) (blocks_of content ?next))))" .
      have unfold: "blocks_of content fpos = (int fpos, ?block) # blocks_of content ?next"
        using True by (subst blocks_of_unfold) simp
      have sent: "sent_blocks t k ((int fpos, ?block) # blocks_of content ?next)
          = (int fpos, ?block) # sent_blocks t (Suc k) (blocks_of content ?next)"
      proof (cases t)
        case None
        then show ?thesis by (simp add: sent_blocks_def)
      next
        case (Some j)
        with not_set have "k < j" by (simp add: interruptRequest_def)
        then have "j - k = Suc (j - Suc k)" by simp
        then show ?thesis by (simp add: sent_blocks_def Some)
      qed
      show ?thesis
        using True not_set
        by (subst blockReader_cases) (simp add: IH unfold sent)
    qed
  qed
qed

subsection \<open>One indexing pass\<close>

lemma contiguous_take: "contiguous p blocks \<Longrightarrow> contiguous p (take n blocks)"
proof (induction blocks arbitrary: p n)
  case Nil
  then show ?case by simp
next
  case (Cons blockData blocks)
  then show ?case by (cases n) simp_all
qed

lemma contiguous_concat_Nil:
  "contiguous p blocks \<Longrightarrow> concat_blocks blocks = [] \<longleftrightarrow> blocks = []"
  by (cases blocks) (simp_all add: concat_blocks_def)

lemma length_concat_take:
  "length (concat_blocks (take n blocks)) \<le> length (concat_blocks blocks)"
proof -
  have "concat_blocks blocks = concat_blocks (take n blocks) @ concat_blocks (drop n blocks)"
    unfolding concat_blocks_def
    by (metis append_take_drop_id concat_append map_append)
  then show ?thesis by simp
qed

lemma concat_sent_blocks:
  "\<exists>rest. concat_blocks (blocks_of content fpos)
      = concat_blocks (sent_blocks t k (blocks_of content fpos)) @ rest"
proof (cases t)
  case None
  then show ?thesis by (simp add: sent_blocks_def)
next
  case (Some j)
  have "concat_blocks (blocks_of content fpos)
      = concat_blocks (take (j - k) (blocks_of content fpos))
        @ concat_blocks (drop (j - k) (blocks_of content fpos))"
    unfolding concat_blocks_def
    by (metis append_take_drop_id concat_append map_append)
  then show ?thesis by (auto simp: sent_blocks_def Some)
qed

lemma lines_fit_sent_blocks:
  assumes "lines_fit 0 (drop fpos content)"
  shows "lines_fit 0 (concat_blocks (sent_blocks t k (blocks_of content fpos)))"
proof -
  from concat_sent_blocks [of content fpos t k] obtain rest where
    "concat_blocks (blocks_of content fpos)
      = concat_blocks (sent_blocks t k (blocks_of content fpos)) @ rest" ..
  moreover have "concat_blocks (blocks_of content fpos) = drop fpos content"
    using blocks_of_contiguous [of fpos content] by simp
  ultimately show ?thesis
    using assms lines_fit_prefix by metis
qed

lemma sent_blocks_props:
  "contiguous (int fpos) (sent_blocks t k (blocks_of content fpos))"
  "length (concat_blocks (sent_blocks t k (blocks_of content fpos))) \<le> length content"
proof -
  show "contiguous (int fpos) (sent_blocks t k (blocks_of content fpos))"
    using blocks_of_contiguous [of fpos content]
    by (auto simp: sent_blocks_def contiguous_take split: option.splits)
  have "length (concat_blocks (blocks_of content fpos)) \<le> length content"
    using blocks_of_contiguous [of fpos content] by simp
  then show "length (concat_blocks (sent_blocks t k (blocks_of content fpos))) \<le> length content"
    using length_concat_take [of "the t - k" "blocks_of content fpos"]
    by (auto simp: sent_blocks_def split: option.splits)
qed

lemma sent_blocks_all:
  assumes "\<not> interruptRequest t (Suc (k + length (sent_blocks t k blocks)))"
  shows "sent_blocks t k blocks = blocks"
proof (cases t)
  case None
  then show ?thesis by (simp add: sent_blocks_def)
next
  case (Some j)
  with assms have "length (take (j - k) blocks) < j - k"
    by (simp add: sent_blocks_def interruptRequest_def)
  then have "take (j - k) blocks = blocks" by simp
  then show ?thesis by (simp add: sent_blocks_def Some)
qed

lemma hd_blocks_of:
  "sent_blocks t k (blocks_of content fpos) \<noteq> []
   \<Longrightarrow> snd (hd (sent_blocks t k (blocks_of content fpos))) = next_block content fpos"
proof -
  assume ne: "sent_blocks t k (blocks_of content fpos) \<noteq> []"
  then have "blocks_of content fpos \<noteq> []"
    by (auto simp: sent_blocks_def split: option.splits)
  then have "hd (blocks_of content fpos) = (int fpos, next_block content fpos)"
    by (subst (asm) blocks_of_unfold, subst blocks_of_unfold) (simp split: if_splits)
  moreover have "hd (sent_blocks t k (blocks_of content fpos)) = hd (blocks_of content fpos)"
    using ne by (auto simp: sent_blocks_def split: option.splits)
  ultimately show ?thesis by simp
qed

text \<open>
  The index after a pass over a file in a single-byte encoding: \<open>d\<close> is the index
  before, \<open>p\<close> the initial position, \<open>bytes\<close> the bytes committed, \<open>g\<close> the guess of the
  pass, \<open>fake\<close> says whether the synthetic entry \<open>file_end + 1\<close> was added, and \<open>m\<close> is
  the maximal length.
\<close>

definition pass_index ::
  "'c env \<Rightarrow> 'c IndexingData \<Rightarrow> int \<Rightarrow> string \<Rightarrow> 'c \<Rightarrow> bool \<Rightarrow> int \<Rightarrow> int \<Rightarrow> 'c IndexingData" where
  "pass_index e d p bytes g fake file_end m =
     (if bytes = []
      then (case encodingGuess d of
              None \<Rightarrow> d\<lparr>encodingGuess := Some (codecForLocale e)\<rparr>
            | Some c \<Rightarrow> d)
      else
        \<lparr>linePosition =
           \<lparr>array = strip_fake (linePosition d) @ lf_positions p bytes
                      @ (if fake then [file_end + 1] else []),
            fakeFinalLF = fake\<rparr>,
         maxLength = m,
         indexedHash = \<lparr>hash = md5 e (indexHash d @ bytes),
                         size' = size' (indexedHash d) + int (length bytes)\<rparr>,
         indexHash = indexHash d @ bytes,
         encodingGuess = Some g,
         encodingForced = encodingForced d\<rparr>)"

lemma doIndex_single_byte:
  assumes sb: "single_byte e" and op: "file_open f"
    and fit: "lines_fit 0 (drop (nat p0) (file_bytes f))" and p0: "0 \<le> p0"
    and blocks: "blocks = sent_blocks t k (blocks_of (file_bytes f) (nat p0))"
    and fake: "fake = (\<not> interruptRequest t (Suc (k + length blocks))
                       \<and> int (length (file_bytes f))
                          > last (p0 # lf_positions p0 (concat_blocks blocks)))"
  shows "\<exists>m events'. doIndex e f t k p0 d events
     = Some (pass_index e d p0 (concat_blocks blocks)
               (pass_guess e (encodingGuess d) (next_block (file_bytes f) (nat p0)))
               fake (int (length (file_bytes f))) m,
             events', Suc (Suc (k + length blocks)))"
proof -
  let ?F = "file_bytes f"
  define st0 :: "'a IndexingState" where "st0 =
     \<lparr>encodingParams = defaultEncodingParameters e, pos = p0, max_length = 0,
      additional_spaces = 0, line_end = 0, file_size = int (length ?F),
      st_encodingGuess = getEncodingGuess d,
      fileTextCodec = (case getForcedEncoding d of None \<Rightarrow> getEncodingGuess d
                       | Some c \<Rightarrow> Some c)\<rparr>"
  have reader: "blockReader t ?F (nat p0) k = (blocks, Suc (k + length blocks))"
    by (simp add: blockReader_sent blocks)
  have unfold: "doIndex e f t k p0 d events =
     (case runParser e (st0, d, events) blocks of
        None \<Rightarrow> None
      | Some (state', d', events') \<Rightarrow>
          let d1 = (if \<not> interruptRequest t (Suc (k + length blocks))
                       \<and> file_size state' > pos state'
                    then addAll e d' [] 0
                           (setFakeFinalLF (append empty_array (file_size state' + 1)))
                           (st_encodingGuess state')
                    else d');
              d2 = (if getEncodingGuess d1 = None
                    then setEncodingGuess d1 (Some (codecForLocale e))
                    else d1)
          in Some (d2, events', Suc (Suc (k + length blocks))))"
    using op reader
    by (simp add: doIndex_def Let_def st0_def cong: option.case_cong prod.case_cong if_cong)
  have cont: "contiguous p0 blocks"
    using sent_blocks_props(1) [of "nat p0" t k ?F] p0 by (simp add: blocks)
  show ?thesis
  proof (cases "blocks = []")
    case True
    have no_fake: "\<not> (\<not> interruptRequest t (Suc (k + length blocks))
        \<and> int (length ?F) > p0)"
    proof
      assume a: "\<not> interruptRequest t (Suc (k + length blocks)) \<and> int (length ?F) > p0"
      then have "sent_blocks t k (blocks_of ?F (nat p0)) = blocks_of ?F (nat p0)"
        using sent_blocks_all [of t k "blocks_of ?F (nat p0)"] by (simp add: blocks)
      with True have "blocks_of ?F (nat p0) = []" by (simp add: blocks)
      then have "\<not> nat p0 < length ?F"
        by (subst (asm) blocks_of_unfold) (simp split: if_splits)
      with a p0 show False by linarith
    qed
    have "doIndex e f t k p0 d events
        = Some (pass_index e d p0 [] (pass_guess e (encodingGuess d) (next_block ?F (nat p0)))
                  fake (int (length ?F)) 0, events, Suc (Suc (k + length blocks)))"
      using True no_fake
      by (auto simp: unfold st0_def pass_index_def getEncodingGuess_def setEncodingGuess_def
          split: option.splits)
    with True show ?thesis by (auto simp: concat_blocks_def)
  next
    case False
    have params: "encodingParams st0 = single_byte_parameters"
      using sb by (simp add: st0_def single_byte_def)
    have far: "lines_fit (nat (p0 - pos st0)) (concat_blocks blocks)"
      using lines_fit_sent_blocks [OF fit, of t k] by (simp add: st0_def blocks)
    from runParser_single_byte [OF sb cont False params _ far, of d events]
    obtain st' m events' where
      run: "runParser e (st0, d, events) blocks
             = Some (st', committed e d p0 (concat_blocks blocks)
                            (pass_guess e (st_encodingGuess st0) (snd (hd blocks))) m,
                     events')"
      and st': "file_size st' = file_size st0"
        "st_encodingGuess st' = Some (pass_guess e (st_encodingGuess st0) (snd (hd blocks)))"
        "pos st' = last (pos st0 # lf_positions p0 (concat_blocks blocks))"
      by (auto simp: st0_def)
    let ?g = "pass_guess e (encodingGuess d) (next_block ?F (nat p0))"
    have g: "pass_guess e (st_encodingGuess st0) (snd (hd blocks)) = ?g"
      using hd_blocks_of [of t k ?F "nat p0"] False
      by (simp add: blocks st0_def getEncodingGuess_def)
    have ne: "concat_blocks blocks \<noteq> []"
      using contiguous_concat_Nil [OF cont] False by simp
    have fake_eq: "(\<not> interruptRequest t (Suc (k + length blocks)) \<and> file_size st' > pos st')
        = fake"
      by (simp add: fake st' st0_def)
    have "doIndex e f t k p0 d events
        = Some (pass_index e d p0 (concat_blocks blocks) ?g fake (int (length ?F))
                  (if fake then max m 0 else m),
                events', Suc (Suc (k + length blocks)))"
      unfolding unfold run [unfolded g] option.case prod.case Let_def fake_eq
      using ne st'(1,2) [unfolded g]
      by (simp add: pass_index_def committed_def addAll_def append_list_def setFakeFinalLF_def
          append_def empty_array_def getEncodingGuess_def st0_def Let_def)
    then show ?thesis by blast
  qed
qed

section \<open>A full index that runs without interruption\<close>

lemma lf_positions_snoc:
  "lf_positions off (xs @ [c])
   = lf_positions off xs @ (if c = LF then [off + int (length xs) + 1] else [])"
  by (simp add: lf_positions_append)

lemma unterminated_iff:
  "last (off # lf_positions off xs) < off + int (length xs) \<longleftrightarrow> xs \<noteq> [] \<and> last xs \<noteq> LF"
proof (cases xs rule: rev_cases)
  case Nil
  then show ?thesis by simp
next
  case (snoc ys c)
  show ?thesis
  proof (cases "c = LF")
    case True
    then show ?thesis by (simp add: snoc lf_positions_snoc)
  next
    case False
    have "last (off # lf_positions off ys) \<le> off + int (length ys)"
      by (rule last_lf_positions_le) simp
    then show ?thesis using False by (simp add: snoc lf_positions_snoc)
  qed
qed

text \<open>
  The index after a full index of the readable file \<open>F\<close> in a single-byte encoding, when
  no interrupt is seen; \<open>m\<close> is the maximal length.
\<close>

definition unterminated :: "string \<Rightarrow> bool" where
  "unterminated F = (F \<noteq> [] \<and> last F \<noteq> LF)"

definition full_index :: "'c env \<Rightarrow> string \<Rightarrow> 'c option \<Rightarrow> int \<Rightarrow> 'c IndexingData" where
  "full_index e F forcedEncoding m =
     \<lparr>linePosition =
        \<lparr>array = lf_positions 0 F @ (if unterminated F then [int (length F) + 1] else []),
         fakeFinalLF = unterminated F\<rparr>,
      maxLength = (if F = [] then 0 else m),
      indexedHash = (if F = [] then \<lparr>hash = [], size' = 0\<rparr>
                     else \<lparr>hash = md5 e F, size' = int (length F)\<rparr>),
      indexHash = F,
      encodingGuess = Some (if F = [] then codecForLocale e
                            else detectEncoding e (take sizeChunk F)),
      encodingForced = forcedEncoding\<rparr>"

lemma FullIndex_uninterrupted:
  assumes sb: "single_byte e" and fit: "lines_fit 0 F"
  shows "\<exists>m events. FullIndexOperation_start e (readable_file F) forcedEncoding None d
     = Some (Completion True, full_index e F forcedEncoding m, events)"
proof -
  let ?f = "readable_file F"
  let ?d = "forceEncoding (clear d) forcedEncoding"
  have bytes: "file_bytes ?f = F" and op: "file_open ?f"
    by (simp_all add: readable_file_def file_open_def)
  define blocks where "blocks = sent_blocks None 0 (blocks_of (file_bytes ?f) (nat 0))"
  have cat: "concat_blocks blocks = F"
    using blocks_of_contiguous [of 0 F] by (simp add: blocks_def sent_blocks_def bytes)
  define fake where "fake = (\<not> interruptRequest None (Suc (0 + length blocks))
       \<and> int (length (file_bytes ?f)) > last (0 # lf_positions 0 (concat_blocks blocks)))"
  have fake_eq: "fake = unterminated F"
    using unterminated_iff [of 0 F]
    by (simp add: fake_def cat bytes interruptRequest_def unterminated_def)
  from doIndex_single_byte [OF sb op _ _ blocks_def fake_def, of ?d "[Inr 0]"] fit
  obtain m events where run: "doIndex e ?f None 0 0 ?d [Inr 0]
     = Some (pass_index e ?d 0 F (pass_guess e (encodingGuess ?d) (next_block F 0))
               (unterminated F) (int (length F)) m,
             events, Suc (Suc (0 + length blocks)))"
    by (auto simp: bytes cat fake_eq)
  have "pass_index e ?d 0 F (pass_guess e (encodingGuess ?d) (next_block F 0))
          (unterminated F) (int (length F)) m
      = full_index e F forcedEncoding m"
    by (simp add: pass_index_def full_index_def forceEncoding_def clear_def strip_fake_def
        empty_array_def pass_guess_def next_block_def unterminated_def)
  with run have "FullIndexOperation_start e (readable_file F) forcedEncoding None d
     = Some (Completion True, full_index e F forcedEncoding m, events)"
    by (simp add: FullIndexOperation_start_def interruptRequest_def)
  then show ?thesis by blast
qed

section \<open>The number of lines\<close>


lemma single_byte_sample_env: "single_byte sample_env"
  by (simp add: single_byte_def sample_env_def)





section \<open>A full index, interrupted or not\<close>

text \<open>
  The full index of a readable file \<open>F\<close> when the interrupt flag is set at \<open>t\<close>. The
  reader makes the reads \<open>0, ..., length blocks\<close> of the flag, \<^verbatim>\<open>doIndex\<close> the read
  \<open>length blocks + 1\<close> after the graph has drained, and \<^verbatim>\<open>start\<close> the read
  \<open>length blocks + 2\<close> for its result.
\<close>

lemma FullIndex_single_byte:
  assumes sb: "single_byte e" and fit: "lines_fit 0 F"
    and blocks: "blocks = sent_blocks t 0 (blocks_of F 0)"
    and fake: "fake = (\<not> interruptRequest t (Suc (length blocks))
                       \<and> last (0 # lf_positions 0 (concat_blocks blocks)) < int (length F))"
  shows "\<exists>m events. FullIndexOperation_start e (readable_file F) forcedEncoding t d
     = Some (Completion (\<not> interruptRequest t (Suc (Suc (length blocks)))),
             pass_index e (forceEncoding (clear d) forcedEncoding) 0 (concat_blocks blocks)
               (detectEncoding e (next_block F 0)) fake (int (length F)) m,
             events)"
proof -
  let ?f = "readable_file F"
  let ?d = "forceEncoding (clear d) forcedEncoding"
  have bytes: "file_bytes ?f = F" and op: "file_open ?f"
    by (simp_all add: readable_file_def file_open_def)
  have b: "blocks = sent_blocks t 0 (blocks_of (file_bytes ?f) (nat 0))"
    by (simp add: blocks bytes)
  have f: "fake = (\<not> interruptRequest t (Suc (0 + length blocks))
       \<and> int (length (file_bytes ?f)) > last (0 # lf_positions 0 (concat_blocks blocks)))"
    by (simp add: fake bytes)
  from doIndex_single_byte [OF sb op _ _ b f, of ?d "[Inr 0]"] fit
  obtain m events where run: "doIndex e ?f t 0 0 ?d [Inr 0]
     = Some (pass_index e ?d 0 (concat_blocks blocks)
               (pass_guess e (encodingGuess ?d) (next_block F 0)) fake (int (length F)) m,
             events, Suc (Suc (0 + length blocks)))"
    by (auto simp: bytes)
  have "pass_guess e (encodingGuess ?d) (next_block F 0) = detectEncoding e (next_block F 0)"
    by (simp add: pass_guess_def forceEncoding_def clear_def)
  with run have "FullIndexOperation_start e (readable_file F) forcedEncoding t d
     = Some (Completion (\<not> interruptRequest t (Suc (Suc (length blocks)))),
             pass_index e ?d 0 (concat_blocks blocks)
               (detectEncoding e (next_block F 0)) fake (int (length F)) m,
             events)"
    by (simp add: FullIndexOperation_start_def)
  then show ?thesis by blast
qed


section \<open>The scan ends, and what it commits\<close>

text \<open>
  The scan of a block ends for every codec whose line feed is at most four bytes wide
  and whose offset lies inside the line feed: behind a line feed found, \<^verbatim>\<open>state.pos\<close>
  is ahead of it. For such codecs the hash of the index is settled without a look at the
  line positions, for files of any size.

  A line position is the offset behind a line feed character. The byte \<open>0x0A\<close> of the
  character lies in the block scanned, and \<open>line_feed_tail\<close> bytes of the character
  follow it: so far a line position can lie behind the end of the block.
\<close>

definition sound_parameters :: "EncodingParameters \<Rightarrow> bool" where
  "sound_parameters p =
     (0 \<le> beforeCrOffset p \<and> beforeCrOffset p < lineFeedWidth p \<and> lineFeedWidth p \<le> 4)"

definition sound_env :: "'c env \<Rightarrow> bool" where
  "sound_env e =
     (sound_parameters (defaultEncodingParameters e)
      \<and> (\<forall>codec. sound_parameters (encodingParameters e codec)))"

definition line_feed_tail :: "EncodingParameters \<Rightarrow> int" where
  "line_feed_tail p = lineFeedWidth p - beforeCrOffset p - 1"

definition tails_within :: "'c env \<Rightarrow> int \<Rightarrow> bool" where
  "tails_within e s =
     (line_feed_tail (defaultEncodingParameters e) \<le> s
      \<and> (\<forall>codec. line_feed_tail (encodingParameters e codec) \<le> s))"

lemma single_byte_sound: "single_byte e \<Longrightarrow> sound_env e"
  by (simp add: single_byte_def sound_env_def sound_parameters_def)

lemma single_byte_tails: "single_byte e \<Longrightarrow> tails_within e 0"
  by (simp add: single_byte_def tails_within_def line_feed_tail_def)

lemma sound_parameters_tail: "sound_parameters p \<Longrightarrow> line_feed_tail p \<le> 3"
  by (simp add: sound_parameters_def line_feed_tail_def)

lemma sound_env_tails: "sound_env e \<Longrightarrow> tails_within e 3"
  by (simp add: sound_env_def tails_within_def sound_parameters_tail)

lemma same_pass_trans: "same_pass s1 s2 \<Longrightarrow> same_pass s2 s3 \<Longrightarrow> same_pass s1 s3"
  by (simp add: same_pass_def)

lemma parseLoop_total:
  assumes len: "length block \<le> sizeChunk"
  shows "sound_parameters (encodingParams st) \<Longrightarrow> \<not> fakeFinalLF lp
    \<Longrightarrow> \<exists>st' new. parseLoop block bb st lp
            = Some (st', \<lparr>array = array lp @ new, fakeFinalLF = False\<rparr>)
          \<and> same_pass st st'
          \<and> pos st' = last (pos st # new)
          \<and> (\<forall>p \<in> set new.
                bb < p \<and> p \<le> bb + int (length block) + line_feed_tail (encodingParams st))"
proof (induction "length block - nat (max (static_cast_int (pos st - bb)) 0)"
    arbitrary: st lp rule: less_induct)
  case less
  define pwb where "pwb = max (static_cast_int (pos st - bb)) 0"
  define q where "q = nat pwb"
  have pwb: "0 \<le> pwb" "int q = pwb" by (simp_all add: pwb_def q_def)
  note lp = array_eq [OF less.prems(2)]
  have stop: ?case
    if "parseLoop block bb st lp = Some (st1, lp)" "same_pass st st1 \<and> pos st1 = pos st"
    for st1
  proof -
    from that(1) have "parseLoop block bb st lp
        = Some (st1, \<lparr>array = array lp @ [], fakeFinalLF = False\<rparr>)"
      using lp by simp
    moreover have "pos st1 = last (pos st # [])" using that(2) by simp
    ultimately show ?thesis using that(2) by fastforce
  qed
  show ?case
  proof (cases "int (length block) - pwb > 0")
    case False
    then have "parseLoop block bb st lp = Some (st, lp)"
      by (subst parseLoop.simps) (simp add: Let_def pwb_def [symmetric])
    then show ?thesis by (rule stop) (simp add: same_pass_def)
  next
    case True
    show ?thesis
    proof (cases "memchr block q LF (int (length block) - pwb)")
      case None
      from expandTabs_only_spaces [of block bb st q "int (length block) - pwb"]
      obtain a where tabs: "expandTabs block bb st q (int (length block) - pwb)
          = st\<lparr>additional_spaces := a\<rparr>" by blast
      have "parseLoop block bb st lp = Some (st\<lparr>additional_spaces := a\<rparr>, lp)"
        using None True tabs
        by (subst parseLoop.simps) (simp add: Let_def pwb_def [symmetric] q_def [symmetric])
      then show ?thesis by (rule stop) (simp add: same_pass_def)
    next
      case (Some i)
      from memchr_Some [OF Some] have qi: "q \<le> i" and il: "i < length block" by auto
      from expandTabs_only_spaces [of block bb st q "int i - int q"]
      obtain a where tabs: "expandTabs block bb st q (int i - int q)
          = st\<lparr>additional_spaces := a\<rparr>" by blast
      define off where "off = beforeCrOffset (encodingParams st)"
      define width where "width = lineFeedWidth (encodingParams st)"
      from less.prems(1) have sound: "0 \<le> off" "off < width" "width \<le> 4"
        by (simp_all add: sound_parameters_def off_def width_def)
      show ?thesis
      proof (cases "int i - off = - 1")
        case True
        have "parseLoop block bb st lp = Some (st\<lparr>additional_spaces := a\<rparr>, lp)"
          using Some \<open>int (length block) - pwb > 0\<close> tabs True
          by (subst parseLoop.simps)
             (simp add: Let_def pwb_def [symmetric] q_def [symmetric] off_def)
        then show ?thesis by (rule stop) (simp add: same_pass_def)
      next
        case False
        define len1 where "len1 = int i - off + bb - pos st + a"
        define st2 where "st2 = st\<lparr>line_end := int i - off + bb,
          max_length := (if len1 > max_length st then len1 else max_length st),
          pos := int i - off + bb + width, additional_spaces := 0\<rparr>"
        define lp2 where "lp2 = append lp (pos st2)"
        have step: "parseLoop block bb st lp = parseLoop block bb st2 lp2"
          using Some \<open>int (length block) - pwb > 0\<close> tabs False
          by (subst parseLoop.simps)
             (simp add: Let_def pwb_def [symmetric] q_def [symmetric] off_def [symmetric]
               width_def [symmetric] st2_def lp2_def len1_def)
        have rel: "pos st2 - bb = int i - off + width" by (simp add: st2_def)
        have "int sizeChunk < 2147483644" by (simp add: sizeChunk_def)
        with il len sound have "int i - off + width < 2147483648"
          "- 2147483648 \<le> int i - off + width"
          by linarith+
        then have cast2: "static_cast_int (pos st2 - bb) = int i - off + width"
          by (simp add: rel static_cast_int_id)
        have "int i + 1 \<le> int i - off + width" using sound by simp
        then have "Suc i \<le> nat (max (static_cast_int (pos st2 - bb)) 0)"
          by (simp add: cast2)
        then have less': "length block - nat (max (static_cast_int (pos st2 - bb)) 0)
            < length block - nat (max (static_cast_int (pos st - bb)) 0)"
          using qi il by (simp add: pwb_def [symmetric] q_def [symmetric])
        have params2: "encodingParams st2 = encodingParams st" by (simp add: st2_def)
        have sound2: "sound_parameters (encodingParams st2)"
          using less.prems(1) by (simp add: params2)
        have lp2: "array lp2 = array lp @ [pos st2]" "\<not> fakeFinalLF lp2"
          using less.prems(2) by (simp_all add: lp2_def append_def)
        from less.hyps [OF less' sound2 lp2(2)]
        obtain st' new where run: "parseLoop block bb st2 lp2
            = Some (st', \<lparr>array = array lp2 @ new, fakeFinalLF = False\<rparr>)"
          and same: "same_pass st2 st'"
          and last: "pos st' = last (pos st2 # new)"
          and bound: "\<forall>p \<in> set new.
              bb < p \<and> p \<le> bb + int (length block) + line_feed_tail (encodingParams st2)"
          by blast
        have here: "bb < pos st2"
          "pos st2 \<le> bb + int (length block) + line_feed_tail (encodingParams st)"
          using il sound
          by (simp_all add: st2_def line_feed_tail_def off_def [symmetric]
              width_def [symmetric])
        have "parseLoop block bb st lp
            = Some (st', \<lparr>array = array lp @ (pos st2 # new), fakeFinalLF = False\<rparr>)"
          using step run by (simp add: lp2(1))
        moreover have "same_pass st st'"
          using same by (simp add: same_pass_def st2_def)
        moreover have "pos st' = last (pos st # pos st2 # new)"
          using last by simp
        moreover have "\<forall>p \<in> set (pos st2 # new).
            bb < p \<and> p \<le> bb + int (length block) + line_feed_tail (encodingParams st)"
          using here bound by (simp add: params2)
        ultimately show ?thesis by blast
      qed
    qed
  qed
qed

text \<open>
  \<open>hashed e d bytes d'\<close>: the index \<open>d'\<close> is the index \<open>d\<close> with the bytes \<open>bytes\<close> added to
  its hash. \<open>extended d bound d'\<close>: the line positions of \<open>d'\<close> are those of \<open>d\<close>, its
  synthetic entry dropped, and then new ones, none of them behind \<open>bound\<close>; and \<open>d'\<close> has
  no synthetic entry. The maximal length and the guess are left open.
\<close>

definition hashed :: "'c env \<Rightarrow> 'c IndexingData \<Rightarrow> string \<Rightarrow> 'c IndexingData \<Rightarrow> bool" where
  "hashed e d bytes d' =
     (indexHash d' = indexHash d @ bytes
      \<and> indexedHash d' = \<lparr>hash = md5 e (indexHash d @ bytes),
                           size' = size' (indexedHash d) + int (length bytes)\<rparr>
      \<and> encodingForced d' = encodingForced d)"

definition extended :: "'c IndexingData \<Rightarrow> int \<Rightarrow> 'c IndexingData \<Rightarrow> bool" where
  "extended d bound d' =
     (\<not> fakeFinalLF (linePosition d')
      \<and> (\<exists>new. array (linePosition d') = strip_fake (linePosition d) @ new
                \<and> (\<forall>p \<in> set new. p \<le> bound)))"

lemma hashed_trans:
  "hashed e d xs d1 \<Longrightarrow> hashed e d1 ys d2 \<Longrightarrow> hashed e d (xs @ ys) d2"
  by (simp add: hashed_def)

lemma hashed_addAll: "hashed e d block (addAll e d block len lp guess)"
  by (simp add: hashed_def addAll_def Let_def)

lemma extended_trans:
  assumes "extended d b1 d1" and "extended d1 b2 d2" and "b1 \<le> b2"
  shows "extended d b2 d2"
proof -
  from assms(1) obtain new1 where 1: "\<not> fakeFinalLF (linePosition d1)"
    "array (linePosition d1) = strip_fake (linePosition d) @ new1" "\<forall>p \<in> set new1. p \<le> b1"
    by (auto simp: extended_def)
  from assms(2) obtain new2 where 2: "\<not> fakeFinalLF (linePosition d2)"
    "array (linePosition d2) = strip_fake (linePosition d1) @ new2" "\<forall>p \<in> set new2. p \<le> b2"
    by (auto simp: extended_def)
  have "array (linePosition d2) = strip_fake (linePosition d) @ (new1 @ new2)"
    using 1(1,2) 2(2) by (simp add: strip_fake_def)
  moreover have "\<forall>p \<in> set (new1 @ new2). p \<le> b2"
    using 1(3) 2(3) assms(3) by auto
  ultimately show ?thesis
    using 2(1) unfolding extended_def by blast
qed

lemma guessEncoding_sound:
  assumes "sound_env e" and "sound_parameters (encodingParams st)"
  shows "sound_parameters (encodingParams (guessEncoding e d block st))"
    and "file_size (guessEncoding e d block st) = file_size st"
    and "pos (guessEncoding e d block st) = pos st"
  using assms by (simp_all add: guessEncoding_def Let_def sound_env_def)

lemma guessEncoding_tail:
  assumes "tails_within e s" and "line_feed_tail (encodingParams st) \<le> s"
  shows "line_feed_tail (encodingParams (guessEncoding e d block st)) \<le> s"
  using assms by (simp add: guessEncoding_def Let_def tails_within_def)

lemma blockParser_total:
  assumes se: "sound_env e" and tw: "tails_within e s"
    and params: "sound_parameters (encodingParams st)"
    and tail: "line_feed_tail (encodingParams st) \<le> s"
    and block: "block \<noteq> []" "length block \<le> sizeChunk"
  shows "\<exists>st' d' events'. blockParser e (st, d, events) (bb, block) = Some (st', d', events')
          \<and> hashed e d block d'
          \<and> extended d (bb + int (length block) + s) d'
          \<and> sound_parameters (encodingParams st')
          \<and> line_feed_tail (encodingParams st') \<le> s
          \<and> file_size st' = file_size st
          \<and> events' = events @ [progress st']
          \<and> (pos st' = pos st \<or> (bb < pos st' \<and> pos st' \<le> bb + int (length block) + s))"
proof -
  define st1 where "st1 = (guessEncoding e d block st)\<lparr>max_length := 0\<rparr>"
  note g = guessEncoding_sound [OF se params, of d block]
  note gt = guessEncoding_tail [OF tw tail, of d block]
  have p1: "sound_parameters (encodingParams st1)" "line_feed_tail (encodingParams st1) \<le> s"
    by (simp_all add: st1_def g gt)
  have "\<not> fakeFinalLF empty_array" by (simp add: empty_array_def)
  from parseLoop_total [OF block(2) p1(1) this, of bb]
  obtain st' new where loop: "parseLoop block bb st1 empty_array
        = Some (st', \<lparr>array = new, fakeFinalLF = False\<rparr>)"
    and same: "same_pass st1 st'"
    and last: "pos st' = last (pos st1 # new)"
    and bound: "\<forall>p \<in> set new.
        bb < p \<and> p \<le> bb + int (length block) + line_feed_tail (encodingParams st1)"
    by (auto simp: empty_array_def)
  let ?lp = "\<lparr>array = new, fakeFinalLF = False\<rparr>"
  let ?d' = "addAll e d block (max_length st') ?lp (st_encodingGuess st')"
  have fields: "sound_parameters (encodingParams st')"
    "line_feed_tail (encodingParams st') \<le> s" "file_size st' = file_size st"
    using same p1 by (simp_all add: same_pass_def st1_def g)
  have "parseDataBlock bb block (guessEncoding e d block st) = Some (st', ?lp)"
    using loop by (simp add: parseDataBlock_def st1_def)
  then have run: "blockParser e (st, d, events) (bb, block)
      = Some (st', ?d', events @ [progress st'])"
    using block(1) by (simp add: blockParser_def Let_def)
  have new: "\<forall>p \<in> set new. bb < p \<and> p \<le> bb + int (length block) + s"
    using bound p1(2) by fastforce
  then have "extended d (bb + int (length block) + s) ?d'"
    by (auto simp: extended_def addAll_def Let_def append_list_def strip_fake_def)
  moreover have "pos st' = pos st \<or> (bb < pos st' \<and> pos st' \<le> bb + int (length block) + s)"
  proof (cases "new = []")
    case True
    with last show ?thesis by (simp add: st1_def g)
  next
    case False
    then have "pos st' \<in> set new" using last by simp
    with new show ?thesis by blast
  qed
  ultimately show ?thesis
    using run fields hashed_addAll [of e d block] by blast
qed

lemma runParser_total:
  assumes se: "sound_env e" and tw: "tails_within e s"
  shows "contiguous p blocks \<Longrightarrow> sound_parameters (encodingParams st)
    \<Longrightarrow> line_feed_tail (encodingParams st) \<le> s
    \<Longrightarrow> \<exists>st' d' events'. runParser e (st, d, events) blocks = Some (st', d', events')
          \<and> (if blocks = [] then st' = st \<and> d' = d
              else hashed e d (concat_blocks blocks) d'
                   \<and> extended d (p + int (length (concat_blocks blocks)) + s) d')
          \<and> file_size st' = file_size st"
proof (induction blocks arbitrary: p st d events)
  case Nil
  then show ?case by simp
next
  case (Cons blockData blocks)
  obtain bb block where bd: "blockData = (bb, block)" by (cases blockData)
  from Cons.prems(1) have bb: "bb = p" and block: "block \<noteq> []" "length block \<le> sizeChunk"
    and rest: "contiguous (p + int (length block)) blocks"
    by (simp_all add: bd)
  from blockParser_total [OF se tw Cons.prems(2,3) block, of d events bb]
  obtain st1 d1 events1 where
    step: "blockParser e (st, d, events) (bb, block) = Some (st1, d1, events1)"
    and h1: "hashed e d block d1"
    and x1: "extended d (p + int (length block) + s) d1"
    and st1: "sound_parameters (encodingParams st1)" "line_feed_tail (encodingParams st1) \<le> s"
      "file_size st1 = file_size st"
    by (auto simp: bb)
  from Cons.IH [OF rest st1(1,2), of d1 events1]
  obtain st' d' events' where
    run: "runParser e (st1, d1, events1) blocks = Some (st', d', events')"
    and h': "if blocks = [] then st' = st1 \<and> d' = d1
             else hashed e d1 (concat_blocks blocks) d'
                  \<and> extended d1 (p + int (length block) + int (length (concat_blocks blocks))
                                  + s) d'"
    and st': "file_size st' = file_size st1"
    by blast
  have cat: "concat_blocks (blockData # blocks) = block @ concat_blocks blocks"
    by (simp add: concat_blocks_def bd)
  have "hashed e d (concat_blocks (blockData # blocks)) d'
      \<and> extended d (p + int (length (concat_blocks (blockData # blocks))) + s) d'"
  proof (cases "blocks = []")
    case True
    with h' h1 x1 show ?thesis by (simp add: concat_blocks_def bd)
  next
    case False
    with h' have h2: "hashed e d1 (concat_blocks blocks) d'"
      and x2: "extended d1 (p + int (length block) + int (length (concat_blocks blocks)) + s) d'"
      by simp_all
    have "extended d (p + int (length block) + int (length (concat_blocks blocks)) + s) d'"
      by (rule extended_trans [OF x1 x2]) simp
    then have "extended d (p + int (length (block @ concat_blocks blocks)) + s) d'"
      by (simp add: add.assoc)
    with hashed_trans [OF h1 h2] show ?thesis by (simp only: cat simp_thms)
  qed
  moreover have "runParser e (st, d, events) (blockData # blocks) = Some (st', d', events')"
    using step run by (simp add: bd)
  moreover have "file_size st' = file_size st" using st' st1(3) by simp
  ultimately show ?case by simp
qed

text \<open>
  One pass, for every codec of the kind above and every size of the file: the pass ends,
  and what it adds to the hash is the bytes of the blocks that the reader sent. When
  \<^verbatim>\<open>doIndex\<close> reads the flag set after the graph has drained, the line positions are
  those that the parser committed: no synthetic entry is added.
\<close>

lemma doIndex_total:
  assumes se: "sound_env e" and tw: "tails_within e s" and op: "file_open f"
    and p0: "0 \<le> p0"
    and blocks: "blocks = sent_blocks t k (blocks_of (file_bytes f) (nat p0))"
  shows "\<exists>d' events'. doIndex e f t k p0 d events
             = Some (d', events', Suc (Suc (k + length blocks)))
          \<and> indexHash d' = indexHash d @ concat_blocks blocks
          \<and> indexedHash d' = (if blocks = [] then indexedHash d
               else \<lparr>hash = md5 e (indexHash d @ concat_blocks blocks),
                     size' = size' (indexedHash d) + int (length (concat_blocks blocks))\<rparr>)
          \<and> encodingForced d' = encodingForced d
          \<and> (interruptRequest t (Suc (k + length blocks))
               \<longrightarrow> (if blocks = [] then linePosition d' = linePosition d
                    else extended d (p0 + int (length (concat_blocks blocks)) + s) d'))"
proof -
  let ?F = "file_bytes f"
  define st0 :: "'a IndexingState" where "st0 =
     \<lparr>encodingParams = defaultEncodingParameters e, pos = p0, max_length = 0,
      additional_spaces = 0, line_end = 0, file_size = int (length ?F),
      st_encodingGuess = getEncodingGuess d,
      fileTextCodec = (case getForcedEncoding d of None \<Rightarrow> getEncodingGuess d
                       | Some c \<Rightarrow> Some c)\<rparr>"
  have reader: "blockReader t ?F (nat p0) k = (blocks, Suc (k + length blocks))"
    by (simp add: blockReader_sent blocks)
  have unfold: "doIndex e f t k p0 d events =
     (case runParser e (st0, d, events) blocks of
        None \<Rightarrow> None
      | Some (state', d', events') \<Rightarrow>
          let d1 = (if \<not> interruptRequest t (Suc (k + length blocks))
                       \<and> file_size state' > pos state'
                    then addAll e d' [] 0
                           (setFakeFinalLF (append empty_array (file_size state' + 1)))
                           (st_encodingGuess state')
                    else d');
              d2 = (if getEncodingGuess d1 = None
                    then setEncodingGuess d1 (Some (codecForLocale e))
                    else d1)
          in Some (d2, events', Suc (Suc (k + length blocks))))"
    using op reader
    by (simp add: doIndex_def Let_def st0_def cong: option.case_cong prod.case_cong if_cong)
  have cont: "contiguous p0 blocks"
    using sent_blocks_props(1) [of "nat p0" t k ?F] p0 by (simp add: blocks)
  have params: "sound_parameters (encodingParams st0)"
    using se by (simp add: st0_def sound_env_def)
  have tail: "line_feed_tail (encodingParams st0) \<le> s"
    using tw by (simp add: st0_def tails_within_def)
  from runParser_total [OF se tw cont params tail, of d events]
  obtain st' d' events' where
    run: "runParser e (st0, d, events) blocks = Some (st', d', events')"
    and h: "if blocks = [] then st' = st0 \<and> d' = d
            else hashed e d (concat_blocks blocks) d'
                 \<and> extended d (p0 + int (length (concat_blocks blocks)) + s) d'"
    by blast
  define d1 where "d1 = (if \<not> interruptRequest t (Suc (k + length blocks))
                       \<and> file_size st' > pos st'
                    then addAll e d' [] 0
                           (setFakeFinalLF (append empty_array (file_size st' + 1)))
                           (st_encodingGuess st')
                    else d')"
  define d2 where "d2 = (if getEncodingGuess d1 = None
                    then setEncodingGuess d1 (Some (codecForLocale e))
                    else d1)"
  have result: "doIndex e f t k p0 d events = Some (d2, events', Suc (Suc (k + length blocks)))"
    by (simp add: unfold run Let_def d1_def d2_def)
  have d2: "indexHash d2 = indexHash d1" "indexedHash d2 = indexedHash d1"
    "encodingForced d2 = encodingForced d1" "linePosition d2 = linePosition d1"
    by (simp_all add: d2_def setEncodingGuess_def)
  have seen: "d1 = d'" if "interruptRequest t (Suc (k + length blocks))"
    using that by (simp add: d1_def)
  show ?thesis
  proof (cases "blocks = []")
    case True
    with h have same: "st' = st0" "d' = d" by simp_all
    have no_fake: "\<not> (\<not> interruptRequest t (Suc (k + length blocks))
        \<and> int (length ?F) > p0)"
    proof
      assume a: "\<not> interruptRequest t (Suc (k + length blocks)) \<and> int (length ?F) > p0"
      then have "sent_blocks t k (blocks_of ?F (nat p0)) = blocks_of ?F (nat p0)"
        using sent_blocks_all [of t k "blocks_of ?F (nat p0)"] by (simp add: blocks)
      with True have "blocks_of ?F (nat p0) = []" by (simp add: blocks)
      then have "\<not> nat p0 < length ?F"
        by (subst (asm) blocks_of_unfold) (simp split: if_splits)
      with a p0 show False by linarith
    qed
    have "file_size st' = int (length ?F)" "pos st' = p0" by (simp_all add: same st0_def)
    with no_fake have "d1 = d" by (simp only: d1_def same if_False)
    with d2 True result show ?thesis by (simp add: concat_blocks_def)
  next
    case False
    with h have hd: "hashed e d (concat_blocks blocks) d'"
      and xd: "extended d (p0 + int (length (concat_blocks blocks)) + s) d'"
      by simp_all
    have ne: "concat_blocks blocks \<noteq> []"
      using contiguous_concat_Nil [OF cont] False by simp
    have "indexHash d1 = indexHash d'" "size' (indexedHash d1) = size' (indexedHash d')"
      "hash (indexedHash d1) = md5 e (indexHash d')" "encodingForced d1 = encodingForced d'"
      using hd ne by (auto simp: d1_def addAll_def Let_def hashed_def)
    then have "indexHash d1 = indexHash d @ concat_blocks blocks"
      "indexedHash d1 = \<lparr>hash = md5 e (indexHash d @ concat_blocks blocks),
          size' = size' (indexedHash d) + int (length (concat_blocks blocks))\<rparr>"
      "encodingForced d1 = encodingForced d"
      using hd by (simp_all add: hashed_def)
    moreover have "extended d (p0 + int (length (concat_blocks blocks)) + s) d2"
      if "interruptRequest t (Suc (k + length blocks))"
      using xd seen [OF that] d2(4) by (simp add: extended_def)
    ultimately show ?thesis
      using d2 False result by simp
  qed
qed

text \<open>
  When \<^verbatim>\<open>doIndex\<close> reads the flag unset after the graph has drained, the reader has sent
  every block of the file, and the pass is the pass of a run in which the flag is never
  set.
\<close>

lemma doIndex_late_interrupt:
  assumes "\<not> interruptRequest t
             (Suc (k + length (sent_blocks t k (blocks_of (file_bytes f) (nat p0)))))"
  shows "doIndex e f t k p0 d events = doIndex e f None k p0 d events"
    and "sent_blocks t k (blocks_of (file_bytes f) (nat p0)) = blocks_of (file_bytes f) (nat p0)"
proof -
  let ?F = "file_bytes f"
  let ?blocks = "sent_blocks t k (blocks_of ?F (nat p0))"
  from sent_blocks_all [OF assms] show all: "?blocks = blocks_of ?F (nat p0)" .
  have reader: "blockReader t ?F (nat p0) k = (?blocks, Suc (k + length ?blocks))"
    by (simp add: blockReader_sent)
  have none: "sent_blocks None k (blocks_of ?F (nat p0)) = ?blocks"
    by (simp only: all) (simp add: sent_blocks_def)
  have reader': "blockReader None ?F (nat p0) k = (?blocks, Suc (k + length ?blocks))"
    by (simp only: blockReader_sent none)
  have "\<not> interruptRequest None (Suc (k + length ?blocks))"
    by (simp add: interruptRequest_def)
  with assms show "doIndex e f t k p0 d events = doIndex e f None k p0 d events"
    by (simp add: doIndex_def Let_def reader reader'
        cong: option.case_cong prod.case_cong if_cong)
qed

text \<open>
  The progress events of a pass are values: \<^verbatim>\<open>state.pos\<close> is never negative and never
  more than three bytes past the end of the file, so that the \<^verbatim>\<open>float\<close> computed fits an
  \<^verbatim>\<open>int\<close>.
\<close>

lemma runParser_in_range:
  assumes se: "sound_env e"
  shows "contiguous p blocks \<Longrightarrow> sound_parameters (encodingParams st)
    \<Longrightarrow> line_feed_tail (encodingParams st) \<le> 3
    \<Longrightarrow> 0 \<le> p \<Longrightarrow> 0 \<le> pos st \<Longrightarrow> pos st \<le> p + 3
    \<Longrightarrow> p + int (length (concat_blocks blocks)) \<le> file_size st
    \<Longrightarrow> runParser e (st, d, events) blocks = Some (st', d', events')
    \<Longrightarrow> list_all in_range events \<Longrightarrow> list_all in_range events'"
proof (induction blocks arbitrary: p st d events)
  case Nil
  then show ?case by simp
next
  case (Cons blockData blocks)
  obtain bb block where bd: "blockData = (bb, block)" by (cases blockData)
  from Cons.prems(1) have bb: "bb = p" and block: "block \<noteq> []" "length block \<le> sizeChunk"
    and rest: "contiguous (p + int (length block)) blocks"
    by (simp_all add: bd)
  have cat: "concat_blocks (blockData # blocks) = block @ concat_blocks blocks"
    by (simp add: concat_blocks_def bd)
  from blockParser_total [OF se sound_env_tails [OF se] Cons.prems(2,3) block, of d events bb]
  obtain st1 d1 events1 where
    step: "blockParser e (st, d, events) (bb, block) = Some (st1, d1, events1)"
    and st1: "sound_parameters (encodingParams st1)" "line_feed_tail (encodingParams st1) \<le> 3"
      "file_size st1 = file_size st"
    and ev1: "events1 = events @ [progress st1]"
    and pos1: "pos st1 = pos st \<or> (bb < pos st1 \<and> pos st1 \<le> bb + int (length block) + 3)"
    by blast
  have p1: "0 \<le> pos st1" "pos st1 \<le> p + int (length block) + 3"
    using pos1 Cons.prems(4,5,6) by (auto simp: bb)
  have inside: "p + int (length block) + int (length (concat_blocks blocks)) \<le> file_size st1"
    using Cons.prems(7) by (simp add: cat st1(3))
  then have "pos st1 \<le> file_size st1 + 3" using p1(2) by linarith
  from progress_in_range [OF p1(1) this] Cons.prems(9)
  have vals: "list_all in_range events1" by (simp add: ev1)
  from Cons.prems(8) step have run: "runParser e (st1, d1, events1) blocks = Some (st', d', events')"
    by (simp add: bd)
  have "0 \<le> p + int (length block)" using Cons.prems(4) by simp
  from Cons.IH [OF rest st1(1,2) this p1 inside run vals] show ?case .
qed

lemma doIndex_in_range:
  assumes se: "sound_env e" and p0: "0 \<le> p0"
    and run: "doIndex e f t k p0 d events = Some (d', events', k')"
    and vals: "list_all in_range events"
  shows "list_all in_range events'"
proof (cases "file_open f")
  case False
  with run vals show ?thesis by (auto simp: doIndex_def in_range_def)
next
  case True
  let ?F = "file_bytes f"
  define blocks where "blocks = sent_blocks t k (blocks_of ?F (nat p0))"
  define st0 :: "'a IndexingState" where "st0 =
     \<lparr>encodingParams = defaultEncodingParameters e, pos = p0, max_length = 0,
      additional_spaces = 0, line_end = 0, file_size = int (length ?F),
      st_encodingGuess = getEncodingGuess d,
      fileTextCodec = (case getForcedEncoding d of None \<Rightarrow> getEncodingGuess d
                       | Some c \<Rightarrow> Some c)\<rparr>"
  have reader: "blockReader t ?F (nat p0) k = (blocks, Suc (k + length blocks))"
    by (simp add: blockReader_sent blocks_def)
  from run True obtain st' d1 where
    parsed: "runParser e (st0, d, events) blocks = Some (st', d1, events')"
    by (auto simp: doIndex_def Let_def reader st0_def split: option.splits prod.splits)
  show ?thesis
  proof (cases "blocks = []")
    case True
    with parsed vals show ?thesis by simp
  next
    case False
    have cont: "contiguous p0 blocks"
      using sent_blocks_props(1) [of "nat p0" t k ?F] p0 by (simp add: blocks_def)
    from concat_sent_blocks [of ?F "nat p0" t k] obtain rest where
      "concat_blocks (blocks_of ?F (nat p0)) = concat_blocks blocks @ rest"
      by (auto simp: blocks_def)
    then have "drop (nat p0) ?F = concat_blocks blocks @ rest"
      using blocks_of_contiguous [of "nat p0" ?F] by simp
    then have "length (drop (nat p0) ?F) = length (concat_blocks blocks) + length rest"
      by simp
    then have "length (concat_blocks blocks) \<le> length ?F - nat p0" by simp
    moreover have "0 < length (concat_blocks blocks)"
      using contiguous_concat_Nil [OF cont] False by simp
    ultimately have "nat p0 + length (concat_blocks blocks) \<le> length ?F" by arith
    then have "int (nat p0) + int (length (concat_blocks blocks)) \<le> int (length ?F)"
      by (simp only: of_nat_add [symmetric] of_nat_le_iff)
    then have inside: "p0 + int (length (concat_blocks blocks)) \<le> file_size st0"
      using p0 by (simp add: st0_def)
    have params: "sound_parameters (encodingParams st0)"
      "line_feed_tail (encodingParams st0) \<le> 3"
      using se sound_env_tails [OF se] by (simp_all add: st0_def sound_env_def tails_within_def)
    have "0 \<le> pos st0" "pos st0 \<le> p0 + 3" using p0 by (simp_all add: st0_def)
    from runParser_in_range [OF se cont params p0 this inside parsed vals] show ?thesis .
  qed
qed

text \<open>
  So the conversion to \<^verbatim>\<open>int\<close> of the progress computation is defined in every full
  and partial index: every progress event is a value between 0 and 6400 (at most 100
  when \<^verbatim>\<open>state.pos\<close> is inside the file).
\<close>

lemma progress_events_in_range:
  assumes "sound_env e"
  shows "FullIndexOperation_start e f forcedEncoding t d = Some (r, d', events)
           \<Longrightarrow> list_all in_range events"
    and "0 \<le> getSize d \<Longrightarrow> PartialIndexOperation_start e f t d = Some (r, d', events)
           \<Longrightarrow> list_all in_range events"
proof -
  have zero: "list_all in_range [Inr 0]" by (simp add: in_range_def)
  {
    assume "FullIndexOperation_start e f forcedEncoding t d = Some (r, d', events)"
    then obtain k where
      "doIndex e f t 0 0 (forceEncoding (clear d) forcedEncoding) [Inr 0] = Some (d', events, k)"
      by (auto simp: FullIndexOperation_start_def split: option.splits)
    from doIndex_in_range [OF assms _ this zero]
    show "list_all in_range events" by simp
  }
  {
    assume size: "0 \<le> getSize d"
      and "PartialIndexOperation_start e f t d = Some (r, d', events)"
    then obtain k where
      "doIndex e f t 0 (getSize d) d [Inr 0] = Some (d', events, k)"
      by (auto simp: PartialIndexOperation_start_def Let_def split: option.splits)
    from doIndex_in_range [OF assms size this zero]
    show "list_all in_range events" .
  }
qed

lemma concat_blocks_of: "concat_blocks (blocks_of F p) = drop p F"
  using blocks_of_contiguous [of p F] by simp



lemma sound_env_sample_env: "sound_env sample_env"
  by (simp add: sound_env_def sound_parameters_def sample_env_def)

section \<open>The hash of the index\<close>




section \<open>Two checks of an unchanged file\<close>





section \<open>A partial index, interrupted or not\<close>

lemma PartialIndex_single_byte:
  assumes sb: "single_byte e" and fit: "lines_fit 0 (drop (nat (getSize d)) F)"
    and size: "0 \<le> getSize d"
    and blocks: "blocks = sent_blocks t 0 (blocks_of F (nat (getSize d)))"
    and fake: "fake = (\<not> interruptRequest t (Suc (length blocks))
                       \<and> last (getSize d # lf_positions (getSize d) (concat_blocks blocks))
                          < int (length F))"
  shows "\<exists>m events. PartialIndexOperation_start e (readable_file F) t d
     = Some (Completion (\<not> interruptRequest t (Suc (Suc (length blocks)))),
             pass_index e d (getSize d) (concat_blocks blocks)
               (pass_guess e (encodingGuess d) (next_block F (nat (getSize d))))
               fake (int (length F)) m,
             events)"
proof -
  let ?f = "readable_file F"
  have bytes: "file_bytes ?f = F" and op: "file_open ?f"
    by (simp_all add: readable_file_def file_open_def)
  have b: "blocks = sent_blocks t 0 (blocks_of (file_bytes ?f) (nat (getSize d)))"
    by (simp add: blocks bytes)
  have f: "fake = (\<not> interruptRequest t (Suc (0 + length blocks))
       \<and> int (length (file_bytes ?f))
          > last (getSize d # lf_positions (getSize d) (concat_blocks blocks)))"
    by (simp add: fake bytes)
  from doIndex_single_byte [OF sb op _ size b f, of d "[Inr 0]"] fit
  obtain m events where run: "doIndex e ?f t 0 (getSize d) d [Inr 0]
     = Some (pass_index e d (getSize d) (concat_blocks blocks)
               (pass_guess e (encodingGuess d) (next_block F (nat (getSize d))))
               fake (int (length F)) m,
             events, Suc (Suc (0 + length blocks)))"
    by (auto simp: bytes)
  then have "PartialIndexOperation_start e (readable_file F) t d
     = Some (Completion (\<not> interruptRequest t (Suc (Suc (length blocks)))),
             pass_index e d (getSize d) (concat_blocks blocks)
               (pass_guess e (encodingGuess d) (next_block F (nat (getSize d))))
               fake (int (length F)) m,
             events)"
    by (simp add: PartialIndexOperation_start_def Let_def)
  then show ?thesis by blast
qed

section \<open>A partial index of an appended tail\<close>

lemma strip_fake_full_index:
  "strip_fake (linePosition (full_index e F forcedEncoding m)) = lf_positions 0 F"
  by (simp add: full_index_def strip_fake_def)

lemma PartialIndex_after_FullIndex:
  assumes sb: "single_byte e" and fit: "lines_fit 0 S"
  shows "\<exists>d2 events. PartialIndexOperation_start e (readable_file (F @ S)) None
           (full_index e F forcedEncoding m)
     = Some (Completion True, d2, events)
     \<and> d2\<lparr>maxLength := 0, encodingGuess := None\<rparr>
        = (full_index e (F @ S) forcedEncoding m')\<lparr>maxLength := 0, encodingGuess := None\<rparr>
     \<and> encodingGuess d2 = encodingGuess (full_index e F forcedEncoding m)"
proof -
  let ?d = "full_index e F forcedEncoding m"
  have size: "getSize ?d = int (length F)"
    by (simp add: full_index_def getSize_def)
  define blocks where "blocks = sent_blocks None 0 (blocks_of (F @ S) (nat (getSize ?d)))"
  have cat: "concat_blocks blocks = S"
    using blocks_of_contiguous [of "length F" "F @ S"]
    by (simp add: blocks_def sent_blocks_def size)
  define fake where "fake = (\<not> interruptRequest None (Suc (length blocks))
     \<and> last (getSize ?d # lf_positions (getSize ?d) (concat_blocks blocks))
        < int (length (F @ S)))"
  have fake_eq: "fake = unterminated S"
    using unterminated_iff [of "int (length F)" S]
    by (simp add: fake_def cat size interruptRequest_def unterminated_def)
  let ?d2 = "\<lambda>m2. pass_index e ?d (int (length F)) S
               (pass_guess e (encodingGuess ?d) (next_block (F @ S) (length F)))
               (unterminated S) (int (length (F @ S))) m2"
  have fit': "lines_fit 0 (drop (nat (getSize ?d)) (F @ S))"
    using fit by (simp add: size)
  from PartialIndex_single_byte [OF sb fit' _ blocks_def fake_def]
  obtain m2 events where run:
    "PartialIndexOperation_start e (readable_file (F @ S)) None ?d
     = Some (Completion True, ?d2 m2, events)"
    by (auto simp: size cat fake_eq interruptRequest_def)
  have "(?d2 m2)\<lparr>maxLength := 0, encodingGuess := None\<rparr>
        = (full_index e (F @ S) forcedEncoding m')\<lparr>maxLength := 0, encodingGuess := None\<rparr>
      \<and> encodingGuess (?d2 m2) = encodingGuess ?d"
  proof (cases "S = []")
    case True
    then show ?thesis
      by (simp add: pass_index_def full_index_def)
  next
    case False
    then have unt: "unterminated (F @ S) = unterminated S"
      by (simp add: unterminated_def)
    show ?thesis
      using False
      by (simp add: pass_index_def full_index_def strip_fake_def unt lf_positions_append
          pass_guess_def)
  qed
  with run show ?thesis by blast
qed

text \<open>
  What the two ways to index \<open>F @ S\<close> agree on. In a single-byte encoding, for lines
  that the 32-bit casts of the scan can hold, and with no interrupt: a full index of
  \<open>F\<close>, then a partial index of the file that holds \<open>F @ S\<close>, leaves the same line
  positions, fake-final-LF flag, hash, size, hashed bytes and forced encoding as a full
  index of \<open>F @ S\<close>; and the encoding guess after the partial index is the one that the
  full index of \<open>F\<close> made.
\<close>

lemma PartialIndex_appended_tail_agreement:
  assumes "single_byte e" and "lines_fit 0 (F @ S)"
  shows "\<exists>d1 events1 d2 events2 d3 events3.
      FullIndexOperation_start e (readable_file F) forcedEncoding None d0
        = Some (Completion True, d1, events1)
    \<and> PartialIndexOperation_start e (readable_file (F @ S)) None d1
        = Some (Completion True, d2, events2)
    \<and> FullIndexOperation_start e (readable_file (F @ S)) forcedEncoding None d0'
        = Some (Completion True, d3, events3)
    \<and> linePosition d2 = linePosition d3
    \<and> getHash d2 = getHash d3
    \<and> getSize d2 = getSize d3
    \<and> indexHash d2 = indexHash d3
    \<and> encodingForced d2 = encodingForced d3
    \<and> encodingGuess d2 = encodingGuess d1"
proof -
  from assms(2) have fitF: "lines_fit 0 F" by (rule lines_fit_prefix)
  from assms(2) have fitS: "lines_fit 0 S" by (rule lines_fit_suffix)
  from FullIndex_uninterrupted [OF assms(1) fitF, of forcedEncoding d0]
  obtain m1 events1 where run1:
    "FullIndexOperation_start e (readable_file F) forcedEncoding None d0
     = Some (Completion True, full_index e F forcedEncoding m1, events1)"
    by blast
  from FullIndex_uninterrupted [OF assms, of forcedEncoding d0']
  obtain m3 events3 where run3:
    "FullIndexOperation_start e (readable_file (F @ S)) forcedEncoding None d0'
     = Some (Completion True, full_index e (F @ S) forcedEncoding m3, events3)"
    by blast
  from PartialIndex_after_FullIndex [OF assms(1) fitS, of F forcedEncoding m1 m3]
  obtain d2 events2 where run2:
    "PartialIndexOperation_start e (readable_file (F @ S)) None
       (full_index e F forcedEncoding m1) = Some (Completion True, d2, events2)"
    and same: "d2\<lparr>maxLength := 0, encodingGuess := None\<rparr>
        = (full_index e (F @ S) forcedEncoding m3)\<lparr>maxLength := 0, encodingGuess := None\<rparr>"
    and guess: "encodingGuess d2 = encodingGuess (full_index e F forcedEncoding m1)"
    by blast
  let ?d3 = "full_index e (F @ S) forcedEncoding m3"
  from same have "linePosition (d2\<lparr>maxLength := 0, encodingGuess := None\<rparr>)
        = linePosition (?d3\<lparr>maxLength := 0, encodingGuess := None\<rparr>)"
    and "indexedHash (d2\<lparr>maxLength := 0, encodingGuess := None\<rparr>)
        = indexedHash (?d3\<lparr>maxLength := 0, encodingGuess := None\<rparr>)"
    and "indexHash (d2\<lparr>maxLength := 0, encodingGuess := None\<rparr>)
        = indexHash (?d3\<lparr>maxLength := 0, encodingGuess := None\<rparr>)"
    and "encodingForced (d2\<lparr>maxLength := 0, encodingGuess := None\<rparr>)
        = encodingForced (?d3\<lparr>maxLength := 0, encodingGuess := None\<rparr>)"
    by simp_all
  then have "linePosition d2 = linePosition ?d3 \<and> getHash d2 = getHash ?d3
      \<and> getSize d2 = getSize ?d3 \<and> indexHash d2 = indexHash ?d3
      \<and> encodingForced d2 = encodingForced ?d3"
    by (simp add: getHash_def getSize_def)
  with run1 run2 run3 guess show ?thesis by blast
qed

text \<open>
  The runs of the failing input: \<open>F\<close> is the file \<open>a\<newline>b\<close> and \<open>S\<close> is \<open>c\<newline>\<close>, so that
  \<open>F @ S\<close> has the lines \<open>a\<close> and \<open>bc\<close>.
\<close>

definition tail_c :: string where
  "tail_c = [CHR ''c'', LF]"

definition index_a_bc_partial :: "sample_codec IndexingData" where
  "index_a_bc_partial =
     \<lparr>linePosition = \<lparr>array = [2, 5], fakeFinalLF = False\<rparr>,
      maxLength = 1,
      indexedHash = \<lparr>hash = [CHR ''a'', LF, CHR ''b'', CHR ''c'', LF] @ take 11 zeros16,
                      size' = 5\<rparr>,
      indexHash = [CHR ''a'', LF, CHR ''b'', CHR ''c'', LF],
      encodingGuess = Some Latin1,
      encodingForced = None\<rparr>"

definition index_a_bc_full :: "sample_codec IndexingData" where
  "index_a_bc_full = index_a_bc_partial\<lparr>maxLength := 2\<rparr>"

lemma PartialIndex_file_a_bc:
  "PartialIndexOperation_start sample_env (readable_file (file_a_b @ tail_c)) None index_a_b
     = Some (Completion True, index_a_bc_partial, [Inr 0, Inr 100])"
  by (simp add: run_defs file_a_b_def tail_c_def index_a_b_def index_a_bc_partial_def)

lemma FullIndex_file_a_bc:
  "FullIndexOperation_start sample_env (readable_file (file_a_b @ tail_c)) None None d
     = Some (Completion True, index_a_bc_full, [Inr 0, Inr 100])"
  by (simp add: run_defs file_a_b_def tail_c_def index_a_bc_full_def index_a_bc_partial_def)

text \<open>
  Claim C3 (a partial index of an appended tail against a full index of the whole) does
  not hold of the code; a failing input. \<open>F\<close> is the file \<open>a\<newline>b\<close> and \<open>S\<close> is \<open>c\<newline>\<close>, in a
  single-byte encoding and with no interrupt. The full index of \<open>F @ S\<close> measures the
  line \<open>bc\<close> and has the maximal length 2. The full index of \<open>F\<close> has the maximal length 1
  (the line \<open>a\<close>); the partial index then starts its scan at \<^verbatim>\<open>getSize()\<close>, the offset of
  \<open>c\<close>, not at the start of the open line \<open>b\<close>: it measures the one byte \<open>c\<close>, and the
  maximal length stays 1. The two indexes differ in the maximal length, which the claim
  says is the same.
\<close>

theorem PartialIndex_appended_tail_failing_input:
  "FullIndexOperation_start sample_env (readable_file file_a_b) None None empty_index
       = Some (Completion True, index_a_b, [Inr 0, Inr 66])
   \<and> PartialIndexOperation_start sample_env (readable_file (file_a_b @ tail_c)) None index_a_b
       = Some (Completion True, index_a_bc_partial, [Inr 0, Inr 100])
   \<and> FullIndexOperation_start sample_env (readable_file (file_a_b @ tail_c)) None None
         empty_index
       = Some (Completion True, index_a_bc_full, [Inr 0, Inr 100])
   \<and> getMaxLength index_a_bc_partial = 1
   \<and> getMaxLength index_a_bc_full = 2
   \<and> index_a_bc_partial \<noteq> index_a_bc_full"
  using FullIndex_file_a_b [of empty_index] PartialIndex_file_a_bc
    FullIndex_file_a_bc [of empty_index]
  by (simp add: getMaxLength_def index_a_bc_full_def index_a_bc_partial_def)

text \<open>
  A second input on which the two indexes differ, in an encoding whose line feed is two
  bytes wide (as in UTF-16LE: \<open>0A 00\<close>). The pass of a partial index starts with the
  text codec of the index, so \<^verbatim>\<open>guessEncoding\<close> never builds the parameters of the
  codec, and the scan runs with the parameters of a default-constructed
  \<^verbatim>\<open>IndexingState\<close>, here a line feed one byte wide. \<open>F\<close> is \<open>h\<newline>\<close> and \<open>S\<close> is \<open>i\<newline>\<close>: the
  full index of \<open>F @ S\<close> has the line positions 4 and 8; the partial index puts the line
  of \<open>i\<close> at 7 and adds a synthetic entry.
\<close>

datatype wide_codec = Utf16LE

definition wide_env :: "wide_codec env" where
  "wide_env =
     \<lparr>md5 = (\<lambda>bytes. take 16 (bytes @ zeros16)),
      detectEncoding = (\<lambda>block. Utf16LE),
      encodingParameters = (\<lambda>codec. \<lparr>lineFeedWidth = 2, beforeCrOffset = 0\<rparr>),
      defaultEncodingParameters = \<lparr>lineFeedWidth = 1, beforeCrOffset = 0\<rparr>,
      codecForLocale = Utf16LE\<rparr>"

definition wide_h :: string where
  "wide_h = [CHR ''h'', CHR 0x00, LF, CHR 0x00]"

definition wide_i :: string where
  "wide_i = [CHR ''i'', CHR 0x00, LF, CHR 0x00]"

definition index_wide_h :: "wide_codec IndexingData" where
  "index_wide_h =
     \<lparr>linePosition = \<lparr>array = [4], fakeFinalLF = False\<rparr>,
      maxLength = 2,
      indexedHash = \<lparr>hash = wide_h @ take 12 zeros16, size' = 4\<rparr>,
      indexHash = wide_h,
      encodingGuess = Some Utf16LE,
      encodingForced = None\<rparr>"

definition index_wide_full :: "wide_codec IndexingData" where
  "index_wide_full =
     \<lparr>linePosition = \<lparr>array = [4, 8], fakeFinalLF = False\<rparr>,
      maxLength = 2,
      indexedHash = \<lparr>hash = wide_h @ wide_i @ take 8 zeros16, size' = 8\<rparr>,
      indexHash = wide_h @ wide_i,
      encodingGuess = Some Utf16LE,
      encodingForced = None\<rparr>"

definition index_wide_partial :: "wide_codec IndexingData" where
  "index_wide_partial =
     index_wide_full\<lparr>linePosition := \<lparr>array = [4, 7, 9], fakeFinalLF = True\<rparr>\<rparr>"

lemma PartialIndex_two_byte_line_feed:
  "FullIndexOperation_start wide_env (readable_file wide_h) None None empty_index
     = Some (Completion True, index_wide_h, [Inr 0, Inr 100])
   \<and> PartialIndexOperation_start wide_env (readable_file (wide_h @ wide_i)) None index_wide_h
     = Some (Completion True, index_wide_partial, [Inr 0, Inr 87])
   \<and> FullIndexOperation_start wide_env (readable_file (wide_h @ wide_i)) None None empty_index
     = Some (Completion True, index_wide_full, [Inr 0, Inr 100])
   \<and> linePosition index_wide_partial \<noteq> linePosition index_wide_full"
  by (simp add: run_defs wide_env_def wide_h_def wide_i_def index_wide_h_def
      index_wide_full_def index_wide_partial_def)

text \<open>
  The encoding guess is not the same either, and this one is meant: \<^verbatim>\<open>guessEncoding\<close>
  keeps the guess that the index has, so a partial index never runs the detector again,
  while a full index of \<open>F @ S\<close> runs it on its first block. With a detector that looks
  at the content (here: UTF-8 if the byte \<open>C3\<close> occurs), \<open>F = a\<newline>\<close> and \<open>S = \<close>\<open>C3 A9\<close>\<open>\<newline>\<close>,
  the two indexes agree on everything but the guess.
\<close>

datatype detected_codec = Ascii | Utf8

definition detecting_env :: "detected_codec env" where
  "detecting_env =
     \<lparr>md5 = (\<lambda>bytes. take 16 (bytes @ zeros16)),
      detectEncoding = (\<lambda>block. if CHR 0xC3 \<in> set block then Utf8 else Ascii),
      encodingParameters = (\<lambda>codec. \<lparr>lineFeedWidth = 1, beforeCrOffset = 0\<rparr>),
      defaultEncodingParameters = \<lparr>lineFeedWidth = 1, beforeCrOffset = 0\<rparr>,
      codecForLocale = Ascii\<rparr>"

definition file_a :: string where
  "file_a = [CHR ''a'', LF]"

definition tail_e_acute :: string where
  "tail_e_acute = [CHR 0xC3, CHR 0xA9, LF]"

definition index_file_a :: "detected_codec IndexingData" where
  "index_file_a =
     \<lparr>linePosition = \<lparr>array = [2], fakeFinalLF = False\<rparr>,
      maxLength = 1,
      indexedHash = \<lparr>hash = file_a @ take 14 zeros16, size' = 2\<rparr>,
      indexHash = file_a,
      encodingGuess = Some Ascii,
      encodingForced = None\<rparr>"

definition index_a_e_acute :: "detected_codec option \<Rightarrow> detected_codec IndexingData" where
  "index_a_e_acute guess =
     \<lparr>linePosition = \<lparr>array = [2, 5], fakeFinalLF = False\<rparr>,
      maxLength = 2,
      indexedHash = \<lparr>hash = file_a @ tail_e_acute @ take 11 zeros16, size' = 5\<rparr>,
      indexHash = file_a @ tail_e_acute,
      encodingGuess = guess,
      encodingForced = None\<rparr>"

lemma PartialIndex_keeps_guess:
  "FullIndexOperation_start detecting_env (readable_file file_a) None None empty_index
     = Some (Completion True, index_file_a, [Inr 0, Inr 100])
   \<and> PartialIndexOperation_start detecting_env (readable_file (file_a @ tail_e_acute)) None
       index_file_a
     = Some (Completion True, index_a_e_acute (Some Ascii), [Inr 0, Inr 100])
   \<and> FullIndexOperation_start detecting_env (readable_file (file_a @ tail_e_acute)) None None
       empty_index
     = Some (Completion True, index_a_e_acute (Some Utf8), [Inr 0, Inr 100])"
  by (simp add: run_defs detecting_env_def file_a_def tail_e_acute_def index_file_a_def
      index_a_e_acute_def)

section \<open>Interrupts\<close>

text \<open>
  A full and a partial index when the interrupt flag is set at \<open>t\<close>, for every codec
  whose line feed is at most four bytes wide with its offset inside the line feed, and
  for files of any size. \<open>s\<close> bounds the number of bytes that a line feed character has
  behind its byte \<open>0x0A\<close> (0 in a single-byte encoding; 3 does for every such codec,
  lemma \<open>sound_env_tails\<close>).
\<close>

lemma FullIndex_interrupt:
  assumes se: "sound_env e" and tw: "tails_within e s"
    and blocks: "blocks = sent_blocks t 0 (blocks_of F 0)"
  shows "\<exists>d1 events.
      FullIndexOperation_start e (readable_file F) forcedEncoding t d0
        = Some (Completion (\<not> interruptRequest t (length blocks + 2)), d1, events)
      \<and> indexHash d1 = concat_blocks blocks
      \<and> getSize d1 = int (length (concat_blocks blocks))
      \<and> (interruptRequest t (length blocks + 1)
           \<longrightarrow> \<not> fakeFinalLF (linePosition d1)
             \<and> (\<forall>p \<in> set (array (linePosition d1)). p \<le> getSize d1 + s)
             \<and> (single_byte e \<and> lines_fit 0 F
                  \<longrightarrow> array (linePosition d1) = lf_positions 0 (concat_blocks blocks)))
      \<and> (\<not> interruptRequest t (length blocks + 1)
           \<longrightarrow> concat_blocks blocks = F
             \<and> FullIndexOperation_start e (readable_file F) forcedEncoding None d0
                 = Some (Completion True, d1, events))"
proof -
  let ?f = "readable_file F"
  let ?d = "forceEncoding (clear d0) forcedEncoding"
  let ?R = "concat_blocks blocks"
  have bytes: "file_bytes ?f = F" and op: "file_open ?f"
    by (simp_all add: readable_file_def file_open_def)
  have b: "blocks = sent_blocks t 0 (blocks_of (file_bytes ?f) (nat 0))"
    by (simp add: blocks bytes)
  from doIndex_total [OF se tw op _ b, of ?d "[Inr 0]"]
  obtain d1 events where run: "doIndex e ?f t 0 0 ?d [Inr 0]
      = Some (d1, events, Suc (Suc (0 + length blocks)))"
    and h: "indexHash d1 = indexHash ?d @ ?R"
      "indexedHash d1 = (if blocks = [] then indexedHash ?d
         else \<lparr>hash = md5 e (indexHash ?d @ ?R),
               size' = size' (indexedHash ?d) + int (length ?R)\<rparr>)"
    and seen: "interruptRequest t (Suc (0 + length blocks))
       \<longrightarrow> (if blocks = [] then linePosition d1 = linePosition ?d
            else extended ?d (0 + int (length ?R) + s) d1)"
    by blast
  have start: "FullIndexOperation_start e ?f forcedEncoding t d0
      = Some (Completion (\<not> interruptRequest t (length blocks + 2)), d1, events)"
    using run by (simp add: FullIndexOperation_start_def)
  have hash: "indexHash d1 = ?R"
    using h(1) by (simp add: forceEncoding_def clear_def)
  have size: "getSize d1 = int (length ?R)"
    using h(2) by (simp add: getSize_def forceEncoding_def clear_def concat_blocks_def)
  have exact: "array (linePosition d1) = lf_positions 0 ?R"
    if seen': "interruptRequest t (length blocks + 1)"
      and sb: "single_byte e" and fit: "lines_fit 0 F"
  proof -
    from FullIndex_single_byte [OF sb fit blocks refl, of forcedEncoding d0] start
    obtain g m where "d1 = pass_index e ?d 0 ?R g
        (\<not> interruptRequest t (Suc (length blocks))
         \<and> last (0 # lf_positions 0 ?R) < int (length F)) (int (length F)) m"
      by auto
    then show ?thesis
      using seen'
      by (simp add: pass_index_def forceEncoding_def clear_def empty_array_def strip_fake_def)
  qed
  have stopped: "\<not> fakeFinalLF (linePosition d1)
      \<and> (\<forall>p \<in> set (array (linePosition d1)). p \<le> getSize d1 + s)"
    if "interruptRequest t (length blocks + 1)"
  proof (cases "blocks = []")
    case True
    with seen that have "linePosition d1 = linePosition ?d" by simp
    then show ?thesis by (simp add: forceEncoding_def clear_def empty_array_def)
  next
    case False
    with seen that have "extended ?d (int (length ?R) + s) d1" by simp
    then show ?thesis
      by (auto simp: extended_def size strip_fake_def forceEncoding_def clear_def
          empty_array_def)
  qed
  have late: "?R = F
      \<and> FullIndexOperation_start e ?f forcedEncoding None d0 = Some (Completion True, d1, events)"
    if "\<not> interruptRequest t (length blocks + 1)"
  proof -
    from that have ns: "\<not> interruptRequest t
        (Suc (0 + length (sent_blocks t 0 (blocks_of (file_bytes ?f) (nat 0)))))"
      by (simp add: blocks bytes)
    note same = doIndex_late_interrupt(1) [OF ns, of e ?d "[Inr 0]"]
      doIndex_late_interrupt(2) [OF ns]
    from same(2) have "?R = F" by (simp add: blocks bytes concat_blocks_of)
    moreover have "FullIndexOperation_start e ?f forcedEncoding None d0
        = Some (Completion True, d1, events)"
      using run same(1) by (simp add: FullIndexOperation_start_def interruptRequest_def)
    ultimately show ?thesis ..
  qed
  from start hash size stopped exact late show ?thesis by blast
qed

lemma PartialIndex_interrupt:
  assumes se: "sound_env e" and tw: "tails_within e s" and size: "0 \<le> getSize d"
    and blocks: "blocks = sent_blocks t 0 (blocks_of F (nat (getSize d)))"
  shows "\<exists>d2 events.
      PartialIndexOperation_start e (readable_file F) t d
        = Some (Completion (\<not> interruptRequest t (length blocks + 2)), d2, events)
      \<and> indexHash d2 = indexHash d @ concat_blocks blocks
      \<and> getSize d2 = getSize d + int (length (concat_blocks blocks))
      \<and> (interruptRequest t (length blocks + 1)
           \<longrightarrow> (if blocks = [] then linePosition d2 = linePosition d
                else \<not> fakeFinalLF (linePosition d2)
                     \<and> (\<exists>new. array (linePosition d2) = strip_fake (linePosition d) @ new
                              \<and> (\<forall>p \<in> set new. p \<le> getSize d2 + s))
                     \<and> (single_byte e \<and> lines_fit 0 (drop (nat (getSize d)) F)
                          \<longrightarrow> array (linePosition d2)
                              = strip_fake (linePosition d)
                                @ lf_positions (getSize d) (concat_blocks blocks))))
      \<and> (\<not> interruptRequest t (length blocks + 1)
           \<longrightarrow> concat_blocks blocks = drop (nat (getSize d)) F
             \<and> PartialIndexOperation_start e (readable_file F) None d
                 = Some (Completion True, d2, events))"
proof -
  let ?f = "readable_file F"
  let ?R = "concat_blocks blocks"
  have bytes: "file_bytes ?f = F" and op: "file_open ?f"
    by (simp_all add: readable_file_def file_open_def)
  have b: "blocks = sent_blocks t 0 (blocks_of (file_bytes ?f) (nat (getSize d)))"
    by (simp add: blocks bytes)
  from doIndex_total [OF se tw op size b, of d "[Inr 0]"]
  obtain d2 events where run: "doIndex e ?f t 0 (getSize d) d [Inr 0]
      = Some (d2, events, Suc (Suc (0 + length blocks)))"
    and h: "indexHash d2 = indexHash d @ ?R"
      "indexedHash d2 = (if blocks = [] then indexedHash d
         else \<lparr>hash = md5 e (indexHash d @ ?R),
               size' = size' (indexedHash d) + int (length ?R)\<rparr>)"
    and seen: "interruptRequest t (Suc (0 + length blocks))
       \<longrightarrow> (if blocks = [] then linePosition d2 = linePosition d
            else extended d (getSize d + int (length ?R) + s) d2)"
    by blast
  have start: "PartialIndexOperation_start e ?f t d
      = Some (Completion (\<not> interruptRequest t (length blocks + 2)), d2, events)"
    using run by (simp add: PartialIndexOperation_start_def Let_def)
  have size2: "getSize d2 = getSize d + int (length ?R)"
    using h(2) by (simp add: getSize_def concat_blocks_def)
  have cont: "contiguous (int (nat (getSize d))) blocks"
    using sent_blocks_props(1) [of "nat (getSize d)" t 0 F] by (simp add: blocks)
  have exact: "array (linePosition d2)
      = strip_fake (linePosition d) @ lf_positions (getSize d) ?R"
    if seen': "interruptRequest t (length blocks + 1)" and ne: "blocks \<noteq> []"
      and sb: "single_byte e" and fit: "lines_fit 0 (drop (nat (getSize d)) F)"
  proof -
    from PartialIndex_single_byte [OF sb fit size blocks refl] start
    obtain g m where "d2 = pass_index e d (getSize d) ?R g
        (\<not> interruptRequest t (Suc (length blocks))
         \<and> last (getSize d # lf_positions (getSize d) ?R) < int (length F)) (int (length F)) m"
      by auto
    moreover have "?R \<noteq> []"
      using contiguous_concat_Nil [OF cont] ne by simp
    ultimately show ?thesis
      using seen' by (simp add: pass_index_def)
  qed
  have stopped: "if blocks = [] then linePosition d2 = linePosition d
                else \<not> fakeFinalLF (linePosition d2)
                     \<and> (\<exists>new. array (linePosition d2) = strip_fake (linePosition d) @ new
                              \<and> (\<forall>p \<in> set new. p \<le> getSize d2 + s))
                     \<and> (single_byte e \<and> lines_fit 0 (drop (nat (getSize d)) F)
                          \<longrightarrow> array (linePosition d2)
                              = strip_fake (linePosition d) @ lf_positions (getSize d) ?R)"
    if seen': "interruptRequest t (length blocks + 1)"
  proof (cases "blocks = []")
    case True
    with seen seen' show ?thesis by simp
  next
    case False
    with seen seen' have "extended d (getSize d + int (length ?R) + s) d2" by simp
    then have "\<not> fakeFinalLF (linePosition d2)
        \<and> (\<exists>new. array (linePosition d2) = strip_fake (linePosition d) @ new
                 \<and> (\<forall>p \<in> set new. p \<le> getSize d2 + s))"
      by (simp add: extended_def size2)
    with exact [OF seen' False] False show ?thesis by simp
  qed
  have late: "?R = drop (nat (getSize d)) F
      \<and> PartialIndexOperation_start e ?f None d = Some (Completion True, d2, events)"
    if "\<not> interruptRequest t (length blocks + 1)"
  proof -
    from that have ns: "\<not> interruptRequest t
        (Suc (0 + length (sent_blocks t 0 (blocks_of (file_bytes ?f) (nat (getSize d))))))"
      by (simp add: blocks bytes)
    note same = doIndex_late_interrupt(1) [OF ns, of e d "[Inr 0]"]
      doIndex_late_interrupt(2) [OF ns]
    from same(2) have "?R = drop (nat (getSize d)) F"
      by (simp add: blocks bytes concat_blocks_of)
    moreover have "PartialIndexOperation_start e ?f None d = Some (Completion True, d2, events)"
      using run same(1)
      by (simp add: PartialIndexOperation_start_def Let_def interruptRequest_def)
    ultimately show ?thesis ..
  qed
  from start h(1) size2 stopped late show ?thesis by blast
qed

text \<open>
  Claim C6 (an interrupt during a full or a partial index), as amended. The file is
  readable, of any size, and its codec has a line feed of at most four bytes with the
  offset inside the line feed; a line feed character has at most \<open>s\<close> bytes behind its
  byte \<open>0x0A\<close> (none in a single-byte encoding). \<open>blocks\<close> are the blocks that the reader
  sends before it sees the flag (all blocks of the file, from the initial position on,
  if it never does): the reader stops at a chunk boundary. The reader reads the flag
  \<open>length blocks + 1\<close> times, \<^verbatim>\<open>doIndex\<close> reads it once more after the graph has drained
  (read number \<open>length blocks + 1\<close>) and \<^verbatim>\<open>start\<close> reads it for its result (read number
  \<open>length blocks + 2\<close>). For a full and for a partial index:
  \<^item> The operation returns; it returns \<open>Completion False\<close> if the flag is set at the last
    of these reads, and \<open>Completion True\<close> if it is not (in particular if it is never
    set).
  \<^item> The bytes hashed and the size of the index are those of the blocks sent (behind
    those of the index before, for a partial index): every block sent is parsed and
    committed, whole.
  \<^item> If the flag is set when \<^verbatim>\<open>doIndex\<close> reads it after the graph has drained, no
    synthetic entry is appended: the index has no synthetic entry once a block is
    committed, the line positions are those of the index before and then those of the
    blocks committed, and no new one lies more than \<open>s\<close> bytes past the last committed
    block. With no block committed the line positions are those of the index before.
    In a single-byte encoding, for lines that the casts of the scan can hold, the new
    line positions are the offsets behind the line feeds of the committed blocks.
  \<^item> If the flag is not set at that read, all blocks of the file were sent, and the index
    and the progress events are those of the run in which the flag is never set, the
    synthetic entry included, whatever \<^verbatim>\<open>start\<close> reads afterwards.
\<close>

theorem interrupt_during_index:
  assumes "sound_env e" and "tails_within e s" and "0 \<le> getSize d"
    and "blocks = sent_blocks t 0 (blocks_of F 0)"
    and "blocks' = sent_blocks t 0 (blocks_of F (nat (getSize d)))"
  shows "(\<exists>d1 events.
      FullIndexOperation_start e (readable_file F) forcedEncoding t d0
        = Some (Completion (\<not> interruptRequest t (length blocks + 2)), d1, events)
      \<and> indexHash d1 = concat_blocks blocks
      \<and> getSize d1 = int (length (concat_blocks blocks))
      \<and> (interruptRequest t (length blocks + 1)
           \<longrightarrow> \<not> fakeFinalLF (linePosition d1)
             \<and> (\<forall>p \<in> set (array (linePosition d1)). p \<le> getSize d1 + s)
             \<and> (single_byte e \<and> lines_fit 0 F
                  \<longrightarrow> array (linePosition d1) = lf_positions 0 (concat_blocks blocks)))
      \<and> (\<not> interruptRequest t (length blocks + 1)
           \<longrightarrow> concat_blocks blocks = F
             \<and> FullIndexOperation_start e (readable_file F) forcedEncoding None d0
                 = Some (Completion True, d1, events)))
    \<and> (\<exists>d2 events.
      PartialIndexOperation_start e (readable_file F) t d
        = Some (Completion (\<not> interruptRequest t (length blocks' + 2)), d2, events)
      \<and> indexHash d2 = indexHash d @ concat_blocks blocks'
      \<and> getSize d2 = getSize d + int (length (concat_blocks blocks'))
      \<and> (interruptRequest t (length blocks' + 1)
           \<longrightarrow> (if blocks' = [] then linePosition d2 = linePosition d
                else \<not> fakeFinalLF (linePosition d2)
                     \<and> (\<exists>new. array (linePosition d2) = strip_fake (linePosition d) @ new
                              \<and> (\<forall>p \<in> set new. p \<le> getSize d2 + s))
                     \<and> (single_byte e \<and> lines_fit 0 (drop (nat (getSize d)) F)
                          \<longrightarrow> array (linePosition d2)
                              = strip_fake (linePosition d)
                                @ lf_positions (getSize d) (concat_blocks blocks'))))
      \<and> (\<not> interruptRequest t (length blocks' + 1)
           \<longrightarrow> concat_blocks blocks' = drop (nat (getSize d)) F
             \<and> PartialIndexOperation_start e (readable_file F) None d
                 = Some (Completion True, d2, events)))"
  using FullIndex_interrupt [OF assms(1,2,4), of forcedEncoding d0]
    PartialIndex_interrupt [OF assms(1,2,3,5)]
  by (rule conjI)

lemma blocks_of_last_block:
  assumes "p < length F" and "length F - p \<le> sizeChunk"
  shows "blocks_of F p = [(int p, drop p F)]"
proof -
  have next_b: "next_block F p = drop p F" using assms by (simp add: next_block_def)
  have "blocks_of F (p + length (drop p F)) = []"
    using assms by (subst blocks_of_unfold) simp
  then show ?thesis
    using assms next_b by (subst blocks_of_unfold) simp
qed

lemma blocks_of_one_block:
  assumes "F \<noteq> []" and "length F \<le> sizeChunk"
  shows "blocks_of F 0 = [(0, F)]"
  using blocks_of_last_block [of 0 F] assms by simp

lemma blocks_of_at_end: "blocks_of F (length F) = []"
  by (subst blocks_of_unfold) simp

text \<open>
  The runs of the witness: the file \<open>a\<newline>b\<close>, and the flag set after the first read of
  the reader (\<open>t = Some 1\<close>). The full index commits the one block of the file and adds
  no synthetic entry. The partial index is started on the index of \<open>a\<newline>\<close>, the first
  two bytes of the file: it commits the block \<open>b\<close> and adds no synthetic entry either.
\<close>

definition index_a_lf :: "sample_codec IndexingData" where
  "index_a_lf =
     \<lparr>linePosition = \<lparr>array = [2], fakeFinalLF = False\<rparr>,
      maxLength = 1,
      indexedHash = \<lparr>hash = [CHR ''a'', LF] @ take 14 zeros16, size' = 2\<rparr>,
      indexHash = [CHR ''a'', LF],
      encodingGuess = Some Latin1,
      encodingForced = None\<rparr>"

definition index_a_b_interrupted :: "sample_codec IndexingData" where
  "index_a_b_interrupted = index_a_b\<lparr>linePosition := \<lparr>array = [2], fakeFinalLF = False\<rparr>\<rparr>"

lemma FullIndex_file_a_b_interrupted:
  "FullIndexOperation_start sample_env (readable_file file_a_b) None (Some 1) d
     = Some (Completion False, index_a_b_interrupted, [Inr 0, Inr 66])"
  by (simp add: run_defs file_a_b_def index_a_b_def index_a_b_interrupted_def)

lemma PartialIndex_file_a_b_interrupted:
  "PartialIndexOperation_start sample_env (readable_file file_a_b) (Some 1) index_a_lf
     = Some (Completion False, index_a_b_interrupted, [Inr 0, Inr 66])"
  by (simp add: run_defs file_a_b_def index_a_b_def index_a_lf_def index_a_b_interrupted_def)

theorem interrupt_during_index_witness:
  "sound_env sample_env \<and> tails_within sample_env 0 \<and> 0 \<le> getSize index_a_lf
   \<and> [(0, file_a_b)] = sent_blocks (Some 1) 0 (blocks_of file_a_b 0)
   \<and> [(2, [CHR ''b''])] = sent_blocks (Some 1) 0 (blocks_of file_a_b (nat (getSize index_a_lf)))
   \<and> interruptRequest (Some 1) (length [(0 :: int, file_a_b)] + 1)
   \<and> interruptRequest (Some 1) (length [(2 :: int, [CHR ''b''])] + 1)
   \<and> FullIndexOperation_start sample_env (readable_file file_a_b) None (Some 1) empty_index
       = Some (Completion False, index_a_b_interrupted, [Inr 0, Inr 66])
   \<and> PartialIndexOperation_start sample_env (readable_file file_a_b) (Some 1) index_a_lf
       = Some (Completion False, index_a_b_interrupted, [Inr 0, Inr 66])
   \<and> indexHash index_a_b_interrupted = file_a_b
   \<and> getSize index_a_b_interrupted = int (length file_a_b)
   \<and> \<not> fakeFinalLF (linePosition index_a_b_interrupted)
   \<and> list_all (\<lambda>p. p \<le> getSize index_a_b_interrupted + 0)
        (array (linePosition index_a_b_interrupted))
   \<and> single_byte sample_env \<and> lines_fit 0 file_a_b
   \<and> array (linePosition index_a_b_interrupted) = lf_positions 0 file_a_b
   \<and> indexHash index_a_b_interrupted = indexHash index_a_lf @ [CHR ''b'']
   \<and> getSize index_a_b_interrupted = getSize index_a_lf + 1"
proof -
  have fit: "lines_fit 0 file_a_b" by (simp add: file_a_b_def LF_def)
  have tails: "tails_within sample_env 0"
    by (rule single_byte_tails [OF single_byte_sample_env])
  have size: "0 \<le> getSize index_a_lf" "nat (getSize index_a_lf) = 2"
    by (simp_all add: getSize_def index_a_lf_def)
  have b1: "[(0, file_a_b)] = sent_blocks (Some 1) 0 (blocks_of file_a_b 0)"
    using blocks_of_one_block [of file_a_b]
    by (simp add: sent_blocks_def file_a_b_def sizeChunk_def)
  have b2: "[(2, [CHR ''b''])]
      = sent_blocks (Some 1) 0 (blocks_of file_a_b (nat (getSize index_a_lf)))"
    using blocks_of_last_block [of 2 file_a_b]
    by (simp add: size sent_blocks_def file_a_b_def sizeChunk_def)
  have seen1: "interruptRequest (Some 1) (length [(0 :: int, file_a_b)] + 1)"
    and seen2: "interruptRequest (Some 1) (length [(2 :: int, [CHR ''b''])] + 1)"
    by (simp_all add: interruptRequest_def)
  note run1 = FullIndex_file_a_b_interrupted [of empty_index]
  note run2 = PartialIndex_file_a_b_interrupted
  note inst = interrupt_during_index [OF sound_env_sample_env tails size(1) b1 b2,
      of None empty_index]
  from inst obtain d1 events where
    r1: "FullIndexOperation_start sample_env (readable_file file_a_b) None (Some 1) empty_index
        = Some (Completion (\<not> interruptRequest (Some 1) (length [(0 :: int, file_a_b)] + 2)),
                d1, events)"
    and hashed1: "indexHash d1 = concat_blocks [(0, file_a_b)]"
      "getSize d1 = int (length (concat_blocks [(0, file_a_b)]))"
    and no_fake1: "interruptRequest (Some 1) (length [(0 :: int, file_a_b)] + 1)
           \<longrightarrow> \<not> fakeFinalLF (linePosition d1)
             \<and> (\<forall>p \<in> set (array (linePosition d1)). p \<le> getSize d1 + 0)
             \<and> (single_byte sample_env \<and> lines_fit 0 file_a_b
                  \<longrightarrow> array (linePosition d1)
                      = lf_positions 0 (concat_blocks [(0, file_a_b)]))"
    by blast
  from inst obtain d2 events2 where
    r2: "PartialIndexOperation_start sample_env (readable_file file_a_b) (Some 1) index_a_lf
        = Some (Completion (\<not> interruptRequest (Some 1)
                               (length [(2 :: int, [CHR ''b''])] + 2)), d2, events2)"
    and hashed2: "indexHash d2 = indexHash index_a_lf @ concat_blocks [(2, [CHR ''b''])]"
      "getSize d2 = getSize index_a_lf + int (length (concat_blocks [(2, [CHR ''b''])]))"
    by blast
  from r1 run1 have d1: "d1 = index_a_b_interrupted" by simp
  from r2 run2 have d2: "d2 = index_a_b_interrupted" by simp
  from hashed1 no_fake1 seen1 single_byte_sample_env fit
  have full: "indexHash index_a_b_interrupted = file_a_b
   \<and> getSize index_a_b_interrupted = int (length file_a_b)
   \<and> \<not> fakeFinalLF (linePosition index_a_b_interrupted)
   \<and> list_all (\<lambda>p. p \<le> getSize index_a_b_interrupted + 0)
        (array (linePosition index_a_b_interrupted))
   \<and> array (linePosition index_a_b_interrupted) = lf_positions 0 file_a_b"
    by (simp add: d1 concat_blocks_def list_all_iff)
  from hashed2 have partial: "indexHash index_a_b_interrupted = indexHash index_a_lf @ [CHR ''b'']
   \<and> getSize index_a_b_interrupted = getSize index_a_lf + 1"
    by (simp add: d2 concat_blocks_def)
  from sound_env_sample_env tails size(1) b1 b2 seen1 seen2 run1 run2 full partial
    single_byte_sample_env fit
  show ?thesis by blast
qed

text \<open>
  Why \<open>s\<close>: in the encoding with a line feed two bytes wide, the file \<open>h\<close>\<open>\<newline>\<close> cut in the
  middle of its line feed character (three bytes). The full index, interrupted behind
  its one block, has the line position 4, one byte past the three bytes committed.
\<close>

definition index_wide_cut :: "wide_codec IndexingData" where
  "index_wide_cut =
     \<lparr>linePosition = \<lparr>array = [4], fakeFinalLF = False\<rparr>,
      maxLength = 2,
      indexedHash = \<lparr>hash = [CHR ''h'', CHR 0x00, LF] @ take 13 zeros16, size' = 3\<rparr>,
      indexHash = [CHR ''h'', CHR 0x00, LF],
      encodingGuess = Some Utf16LE,
      encodingForced = None\<rparr>"

lemma FullIndex_wide_interrupted:
  "FullIndexOperation_start wide_env (readable_file [CHR ''h'', CHR 0x00, LF]) None (Some 1)
       empty_index
     = Some (Completion False, index_wide_cut, [Inr 0, Inr 133])
   \<and> array (linePosition index_wide_cut) = [4]
   \<and> getSize index_wide_cut = 3
   \<and> tails_within wide_env 1"
  by (simp add: run_defs wide_env_def index_wide_cut_def tails_within_def line_feed_tail_def)

text \<open>
  Claim C6 as stated lets the flag be set at any moment. The file is the one byte \<open>a\<close>;
  the reader reads the flag twice (before the block and at the end of the file) and
  \<^verbatim>\<open>doIndex\<close> reads it after the graph has drained; the flag is set after that
  (\<open>t = Some 3\<close>), before \<^verbatim>\<open>start\<close> reads it for its result. The operation returns
  \<open>Completion False\<close>, and the synthetic entry \<open>file_size + 1 = 2\<close> has been appended: it
  lies past the one byte committed.
\<close>

definition index_a_late_interrupt :: "sample_codec IndexingData" where
  "index_a_late_interrupt =
     \<lparr>linePosition = \<lparr>array = [2], fakeFinalLF = True\<rparr>,
      maxLength = 0,
      indexedHash = \<lparr>hash = CHR ''a'' # take 15 zeros16, size' = 1\<rparr>,
      indexHash = [CHR ''a''],
      encodingGuess = Some Latin1,
      encodingForced = None\<rparr>"

theorem interrupt_during_index_counterexample:
  "FullIndexOperation_start sample_env (readable_file [CHR ''a'']) None (Some 3) empty_index
     = Some (Completion False, index_a_late_interrupt, [Inr 0, Inr 0])
   \<and> fakeFinalLF (linePosition index_a_late_interrupt)
   \<and> array (linePosition index_a_late_interrupt) = [2]
   \<and> getSize index_a_late_interrupt = 1"
  by (simp add: run_defs index_a_late_interrupt_def)

text \<open>
  The same with a partial index: started on the index of \<open>a\<newline>\<close> for the file \<open>a\<newline>b\<close>, with
  the flag set at \<open>t = Some 3\<close>, it returns \<open>Completion False\<close> and leaves the index of
  the complete run, the synthetic entry 4 included.
\<close>

lemma PartialIndex_late_interrupt:
  "PartialIndexOperation_start sample_env (readable_file file_a_b) (Some 3) index_a_lf
     = Some (Completion False, index_a_b, [Inr 0, Inr 66])
   \<and> PartialIndexOperation_start sample_env (readable_file file_a_b) None index_a_lf
     = Some (Completion True, index_a_b, [Inr 0, Inr 66])"
  by (simp add: run_defs file_a_b_def index_a_b_def index_a_lf_def)

section \<open>A line of more than 2 GiB\<close>

text \<open>
  The file \<open>long_line\<close>: a line of 2049 MiB of the letter \<open>a\<close>, then the line \<open>b\<close>. Its
  last block, the three bytes \<open>\<newline>b\<newline>\<close>, starts \<open>2^31 + 2^20\<close> bytes behind the start of
  the open line.
\<close>

definition long_line :: string where
  "long_line = replicate (2049 * sizeChunk) (CHR ''a'') @ [LF, CHR ''b'', LF]"

lemma long_line_length: "length long_line = 2049 * sizeChunk + 3"
  by (simp add: long_line_def)

lemma long_line_block:
  assumes "k < 2049"
  shows "next_block long_line (k * sizeChunk) = replicate sizeChunk (CHR ''a'')"
proof -
  have "sizeChunk \<le> 2049 * sizeChunk - k * sizeChunk"
    using assms unfolding sizeChunk_def by arith
  then show ?thesis
    by (simp add: next_block_def long_line_def min_def)
qed

lemma long_line_last_block:
  "blocks_of long_line (2049 * sizeChunk) = [(int (2049 * sizeChunk), [LF, CHR ''b'', LF])]"
proof -
  have "blocks_of long_line (2049 * sizeChunk)
      = [(int (2049 * sizeChunk), drop (2049 * sizeChunk) long_line)]"
    by (rule blocks_of_last_block) (simp_all add: long_line_length sizeChunk_def)
  then show ?thesis by (simp add: long_line_def)
qed

lemma runParser_long_line:
  assumes sb: "single_byte e"
  shows "k \<le> 2049 \<Longrightarrow> encodingParams st = single_byte_parameters \<Longrightarrow> pos st = 0
    \<Longrightarrow> \<exists>st' d' events'.
          runParser e (st, d, events) (blocks_of long_line (k * sizeChunk))
            = Some (st', d', events')
        \<and> pos st' = 0 \<and> file_size st' = file_size st
        \<and> linePosition d' = \<lparr>array = strip_fake (linePosition d), fakeFinalLF = False\<rparr>"
proof (induction "2049 - k" arbitrary: k st d events)
  case 0
  then have k: "k = 2049" by simp
  let ?bb = "int (2049 * sizeChunk)"
  let ?block = "[LF, CHR ''b'', LF]"
  define st1 where "st1 = guessEncoding e d ?block st"
  have g: "pos st1 = 0" "file_size st1 = file_size st"
    by (simp_all add: st1_def guessEncoding_def Let_def "0.prems")
  have bb: "?bb = 2148532224" by (simp add: sizeChunk_def)
  have "parseLoop ?block 2148532224 (st1\<lparr>max_length := 0\<rparr>) empty_array
      = Some (st1\<lparr>max_length := 0\<rparr>, empty_array)"
    by (rule parseLoop_line_over_2GiB) (simp_all add: g sizeChunk_def)
  then have "parseLoop ?block ?bb (st1\<lparr>max_length := 0\<rparr>) empty_array
      = Some (st1\<lparr>max_length := 0\<rparr>, empty_array)"
    by (simp only: bb)
  then have "blockParser e (st, d, events) (?bb, ?block)
      = Some (st1\<lparr>max_length := 0\<rparr>,
              addAll e d ?block 0 empty_array (st_encodingGuess st1),
              events @ [progress (st1\<lparr>max_length := 0\<rparr>)])"
    by (simp add: blockParser_def parseDataBlock_def Let_def st1_def)
  then have "runParser e (st, d, events) (blocks_of long_line (k * sizeChunk))
      = Some (st1\<lparr>max_length := 0\<rparr>,
              addAll e d ?block 0 empty_array (st_encodingGuess st1),
              events @ [progress (st1\<lparr>max_length := 0\<rparr>)])"
    by (simp add: k long_line_last_block)
  moreover have "linePosition (addAll e d ?block 0 empty_array (st_encodingGuess st1))
      = \<lparr>array = strip_fake (linePosition d), fakeFinalLF = False\<rparr>"
    by (simp add: addAll_def Let_def append_list_def empty_array_def strip_fake_def)
  ultimately show ?case using g by simp
next
  case (Suc n)
  then have k: "k < 2049" "n = 2049 - Suc k" by simp_all
  let ?bb = "int (k * sizeChunk)"
  let ?block = "replicate sizeChunk (CHR ''a'')"
  have block: "?block \<noteq> []" "length ?block \<le> sizeChunk" by (simp_all add: sizeChunk_def)
  have no_lf: "lf_positions ?bb ?block = []"
    by (rule lf_positions_no_LF) (simp add: LF_def)
  have le: "k * sizeChunk \<le> 2048 * sizeChunk"
    using k(1) by (intro mult_le_mono1) simp
  have lt: "k * sizeChunk < length long_line"
    unfolding long_line_length sizeChunk_def using k(1) by arith
  from le have near: "?bb - pos st \<le> 2147483648" "pos st \<le> ?bb"
    by (simp_all add: Suc.prems sizeChunk_def)
  from blockParser_single_byte [OF sb Suc.prems(2) block near(2,1), of d events]
  obtain st1 m where
    step: "blockParser e (st, d, events) (?bb, ?block)
             = Some (st1, committed e d ?bb ?block
                            (pass_guess e (st_encodingGuess st) ?block) m,
                     events @ [progress st1])"
    and st1: "encodingParams st1 = single_byte_parameters" "file_size st1 = file_size st"
      "pos st1 = last (pos st # lf_positions ?bb ?block)"
    by blast
  let ?d1 = "committed e d ?bb ?block (pass_guess e (st_encodingGuess st) ?block) m"
  have pos1: "pos st1 = 0" unfolding st1(3) no_lf using Suc.prems(3) by simp
  have lp1: "linePosition ?d1 = \<lparr>array = strip_fake (linePosition d), fakeFinalLF = False\<rparr>"
    unfolding committed_def no_lf by simp
  have unfold: "blocks_of long_line (k * sizeChunk)
      = (?bb, ?block) # blocks_of long_line (Suc k * sizeChunk)"
    using lt long_line_block [OF k(1)]
    by (subst blocks_of_unfold) (simp add: add.commute)
  from Suc.hyps(1) [OF k(2) _ st1(1) pos1, of ?d1 "events @ [progress st1]"] k(1)
  obtain st' d' events' where
    run: "runParser e (st1, ?d1, events @ [progress st1]) (blocks_of long_line (Suc k * sizeChunk))
            = Some (st', d', events')"
    and fin: "pos st' = 0" "file_size st' = file_size st1"
      "linePosition d' = \<lparr>array = strip_fake (linePosition ?d1), fakeFinalLF = False\<rparr>"
    by auto
  have "runParser e (st, d, events) (blocks_of long_line (k * sizeChunk)) = Some (st', d', events')"
    using step run by (simp only: unfold runParser.simps option.case)
  moreover have "linePosition d' = \<lparr>array = strip_fake (linePosition d), fakeFinalLF = False\<rparr>"
    unfolding fin(3) lp1 by (simp add: strip_fake_def)
  ultimately show ?case using fin(1,2) st1(2) by simp
qed

text \<open>
  The full index of \<open>long_line\<close> in a single-byte encoding, with no interrupt. The file
  ends in a line feed and has two line feeds. The scan of the last block sees neither of
  them: the index has one line, the synthetic entry \<open>file_size + 1\<close>, and the
  fake-final-LF flag is set.
\<close>

lemma FullIndex_line_over_2GiB:
  assumes sb: "single_byte e"
  shows "\<exists>d events. FullIndexOperation_start e (readable_file long_line) forcedEncoding None d0
           = Some (Completion True, d, events)
         \<and> linePosition d = \<lparr>array = [int (length long_line) + 1], fakeFinalLF = True\<rparr>
         \<and> getNbLines d = 1
         \<and> last long_line = LF
         \<and> count_list long_line LF = 2"
proof -
  let ?f = "readable_file long_line"
  let ?d = "forceEncoding (clear d0) forcedEncoding"
  define st0 :: "'a IndexingState" where "st0 =
     \<lparr>encodingParams = defaultEncodingParameters e, pos = 0, max_length = 0,
      additional_spaces = 0, line_end = 0, file_size = int (length long_line),
      st_encodingGuess = getEncodingGuess ?d,
      fileTextCodec = (case getForcedEncoding ?d of None \<Rightarrow> getEncodingGuess ?d
                       | Some c \<Rightarrow> Some c)\<rparr>"
  have bytes: "file_bytes ?f = long_line" and op: "file_open ?f"
    by (simp_all add: readable_file_def file_open_def)
  have reader: "blockReader None long_line 0 0
      = (blocks_of long_line 0, Suc (length (blocks_of long_line 0)))"
    by (simp add: blockReader_sent sent_blocks_def)
  have params: "encodingParams st0 = single_byte_parameters"
    using sb by (simp add: st0_def single_byte_def)
  from runParser_long_line [OF sb _ params, of 0 ?d "[Inr 0]"]
  obtain st' d' events' where
    run: "runParser e (st0, ?d, [Inr 0]) (blocks_of long_line 0) = Some (st', d', events')"
    and fin: "pos st' = 0" "file_size st' = file_size st0"
      "linePosition d' = \<lparr>array = strip_fake (linePosition ?d), fakeFinalLF = False\<rparr>"
    by (auto simp: st0_def)
  have lp: "linePosition d' = \<lparr>array = [], fakeFinalLF = False\<rparr>"
    by (simp add: fin(3) strip_fake_def forceEncoding_def clear_def empty_array_def)
  have open_line: "file_size st' > pos st'"
    by (simp add: fin st0_def long_line_length)
  define d1 where "d1 = addAll e d' [] 0
       (setFakeFinalLF (append empty_array (file_size st' + 1))) (st_encodingGuess st')"
  define d2 where "d2 = (if getEncodingGuess d1 = None
                    then setEncodingGuess d1 (Some (codecForLocale e)) else d1)"
  have unfold: "doIndex e ?f None 0 0 ?d [Inr 0] =
     (case runParser e (st0, ?d, [Inr 0]) (blocks_of long_line 0) of
        None \<Rightarrow> None
      | Some (state', d', events') \<Rightarrow>
          let d1 = (if \<not> interruptRequest None (Suc (length (blocks_of long_line 0)))
                       \<and> file_size state' > pos state'
                    then addAll e d' [] 0
                           (setFakeFinalLF (append empty_array (file_size state' + 1)))
                           (st_encodingGuess state')
                    else d');
              d2 = (if getEncodingGuess d1 = None
                    then setEncodingGuess d1 (Some (codecForLocale e))
                    else d1)
          in Some (d2, events', Suc (Suc (length (blocks_of long_line 0)))))"
    using op reader
    by (simp add: doIndex_def Let_def st0_def bytes
        cong: option.case_cong prod.case_cong if_cong)
  have "doIndex e ?f None 0 0 ?d [Inr 0]
      = Some (d2, events', Suc (Suc (length (blocks_of long_line 0))))"
    using open_line
    by (simp add: unfold run Let_def d1_def d2_def interruptRequest_def)
  then have start: "FullIndexOperation_start e ?f forcedEncoding None d0
      = Some (Completion True, d2, events')"
    by (simp add: FullIndexOperation_start_def interruptRequest_def)
  have "linePosition d2 = linePosition d1"
    by (simp add: d2_def setEncodingGuess_def)
  also have "\<dots> = \<lparr>array = [int (length long_line) + 1], fakeFinalLF = True\<rparr>"
    by (simp add: d1_def addAll_def Let_def append_list_def lp setFakeFinalLF_def append_def
        empty_array_def fin st0_def)
  finally have lp2: "linePosition d2
      = \<lparr>array = [int (length long_line) + 1], fakeFinalLF = True\<rparr>" .
  have "last long_line = LF" "count_list long_line LF = 2"
    by (simp_all add: long_line_def LF_def count_list_append)
  with start lp2 show ?thesis by (simp add: getNbLines_def)
qed

section \<open>The maximal length\<close>

text \<open>
  The maximal length as the spec words it: ``the maximum over all lines of
  \<open>line_length_with_tabs_expanded_to_stops(line, TAB_STOP=8)\<close>'', where a tab whose
  character sits at display column \<open>c\<close> adds \<open>TAB_STOP - (c % TAB_STOP) - 1\<close> columns to
  the one column that every character takes. \<open>expanded_width col line\<close> is the display
  column behind \<open>line\<close> when \<open>line\<close> starts at column \<open>col\<close>; the lines of a file are what
  stands between its line feeds, and behind the last one if anything stands there.
\<close>

fun expanded_width :: "nat \<Rightarrow> string \<Rightarrow> nat" where
  "expanded_width col [] = col"
| "expanded_width col (c # cs) =
     expanded_width (if c = TAB then col + 1 + (8 - col mod 8 - 1) else col + 1) cs"

definition line_length_with_tabs_expanded_to_stops :: "string \<Rightarrow> int" where
  "line_length_with_tabs_expanded_to_stops line = int (expanded_width 0 line)"

fun lines_of :: "string \<Rightarrow> string \<Rightarrow> string list" where
  "lines_of line [] = (if line = [] then [] else [line])"
| "lines_of line (c # cs) =
     (if c = LF then line # lines_of [] cs else lines_of (line @ [c]) cs)"

definition spec_max_length :: "string \<Rightarrow> int" where
  "spec_max_length F =
     foldr max (map line_length_with_tabs_expanded_to_stops (lines_of [] F)) 0"

definition file_tabs :: string where
  "file_tabs = [TAB, TAB, LF, TAB, LF]"

definition index_tabs :: "sample_codec IndexingData" where
  "index_tabs =
     \<lparr>linePosition = \<lparr>array = [3, 5], fakeFinalLF = False\<rparr>,
      maxLength = 22,
      indexedHash = \<lparr>hash = [TAB, TAB, LF, TAB, LF] @ take 11 zeros16, size' = 5\<rparr>,
      indexHash = [TAB, TAB, LF, TAB, LF],
      encodingGuess = Some Latin1,
      encodingForced = None\<rparr>"

definition file_a_bbbb :: string where
  "file_a_bbbb = [CHR ''a'', LF, CHR ''b'', CHR ''b'', CHR ''b'', CHR ''b'']"

definition index_a_bbbb :: "sample_codec IndexingData" where
  "index_a_bbbb =
     \<lparr>linePosition = \<lparr>array = [2, 7], fakeFinalLF = True\<rparr>,
      maxLength = 1,
      indexedHash = \<lparr>hash = [CHR ''a'', LF, CHR ''b'', CHR ''b'', CHR ''b'', CHR ''b'']
                             @ take 10 zeros16,
                      size' = 6\<rparr>,
      indexHash = [CHR ''a'', LF, CHR ''b'', CHR ''b'', CHR ''b'', CHR ''b''],
      encodingGuess = Some Latin1,
      encodingForced = None\<rparr>"

lemma FullIndex_file_tabs:
  "FullIndexOperation_start sample_env (readable_file file_tabs) None None d
     = Some (Completion True, index_tabs, [Inr 0, Inr 100])"
  by (simp add: run_defs file_tabs_def index_tabs_def)

lemma FullIndex_file_a_bbbb:
  "FullIndexOperation_start sample_env (readable_file file_a_bbbb) None None d
     = Some (Completion True, index_a_bbbb, [Inr 0, Inr 33])"
  by (simp add: run_defs file_a_bbbb_def index_a_bbbb_def)

text \<open>
  Claim C5 (the maximal length is the maximum of the display widths of the lines; the
  code falls short of it). The file \<open>TAB TAB LF TAB LF\<close> has the lines \<open>TAB TAB\<close>, 16
  columns wide, and \<open>TAB\<close>, 8 columns wide; a full index without interrupt leaves the
  maximal length 22. In \<^verbatim>\<open>expandTabs\<close> the bytes left to search are counted as
  \<^verbatim>\<open>line_size -= tab_substring_size\<close> while the search moves on behind the tab, so
  after every tab the search reaches one byte further behind the end of the line: after
  the two tabs of the first line it covers the line feed and the tab of the second line,
  and that tab is expanded into the first line (at column 17, 6 columns more).
\<close>

theorem max_length_failing_input:
  "FullIndexOperation_start sample_env (readable_file file_tabs) None None empty_index
     = Some (Completion True, index_tabs, [Inr 0, Inr 100])
   \<and> getMaxLength index_tabs = 22
   \<and> spec_max_length file_tabs = 16"
  using FullIndex_file_tabs [of empty_index]
  by (simp add: getMaxLength_def index_tabs_def spec_max_length_def
      line_length_with_tabs_expanded_to_stops_def file_tabs_def TAB_def LF_def)

text \<open>
  A line without a line feed at the end of the file is committed with the length 0
  (\<^verbatim>\<open>addAll( {}, 0_length, ... )\<close>) and is not measured: the file \<open>a LF bbbb\<close> has the
  lines \<open>a\<close> and \<open>bbbb\<close>, and the maximal length of its index is 1.
\<close>

lemma max_length_unterminated_line:
  "FullIndexOperation_start sample_env (readable_file file_a_bbbb) None None empty_index
     = Some (Completion True, index_a_bbbb, [Inr 0, Inr 33])
   \<and> getMaxLength index_a_bbbb = 1
   \<and> spec_max_length file_a_bbbb = 4"
  using FullIndex_file_a_bbbb [of empty_index]
  by (simp add: getMaxLength_def index_a_bbbb_def spec_max_length_def
      line_length_with_tabs_expanded_to_stops_def file_a_bbbb_def TAB_def LF_def)

end
